theory Spec2Isabelle
  imports Main "HOL-Library.Word"
begin

unbundle bit_operations_syntax

section \<open>What fins.h and the other translation units provide\<close>

text \<open>
  The two translation units \<^verbatim>\<open>src/fins_01_01_bcd16.c\<close> and \<^verbatim>\<open>src/fins_26_01.c\<close> include
  \<^verbatim>\<open>fins.h\<close> and call helpers defined elsewhere in the library. The header's types are
  written down here with the fields the two files touch; its macros and the helpers are
  parameters (the record \<open>fins_env\<close> below), so every theorem about \<open>process_data\<close> and
  \<open>finslib_name_set\<close> holds for whatever the helpers do.
\<close>

type_synonym byte = "8 word"
type_synonym size_t = "64 word"

text \<open>
  The return codes \<^verbatim>\<open>FINS_RETVAL_...\<close> are distinct integer macros. The named ones
  are those the two files return themselves; \<open>FINS_RETVAL_OTHER\<close> stands for any
  further code handed up from \<^verbatim>\<open>XX_finslib_communicate\<close>.
\<close>

datatype fins_retval =
    FINS_RETVAL_SUCCESS
  | FINS_RETVAL_NOT_INITIALIZED
  | FINS_RETVAL_NOT_CONNECTED
  | FINS_RETVAL_NO_READ_ADDRESS
  | FINS_RETVAL_NO_DATA_BLOCK
  | FINS_RETVAL_INVALID_READ_ADDRESS
  | FINS_RETVAL_INVALID_READ_AREA
  | FINS_RETVAL_BODY_TOO_SHORT
  | FINS_RETVAL_OTHER int

text \<open>
  Modelled from the spec: \<^verbatim>\<open>struct fins_sys_tp\<close> is declared in fins.h, which is not
  among the sources. \<open>sockfd\<close> is the field the code reads; \<open>transport\<close> is the
  session's transport kind of the spec's data model (stream or datagram); \<open>peer\<close> is
  the state of the remote end that the helpers reach through the socket.
\<close>

datatype transport_kind = Stream | Datagram

record 'n fins_sys_tp =
  sockfd :: int
  transport :: transport_kind
  peer :: 'n

text \<open>\<^verbatim>\<open>struct fins_command_tp\<close>: a header and the byte array \<^verbatim>\<open>body[]\<close>, indexed from 0.\<close>

record fins_command_tp =
  header :: "byte list"
  body :: "nat \<Rightarrow> byte"

text \<open>\<^verbatim>\<open>struct fins_address_tp\<close> and \<^verbatim>\<open>struct fins_area_tp\<close>, with the fields read here.\<close>

record fins_address_tp =
  main_address :: "32 word"
  sub_address :: "32 word"

record fins_area_tp =
  area :: byte
  low_id :: "32 word"
  low_addr :: "32 word"

text \<open>
  The macros and helper functions. A pointer argument that the helper may write through
  is returned updated: \<open>XX_finslib_communicate env sys cmnd bodylen wait\<close> gives the
  return code, the session, the command buffer (now holding the response body) and the
  new \<^verbatim>\<open>bodylen\<close>. \<open>XX_finslib_decode_address\<close> is \<open>None\<close> where the C function returns
  true (failure); \<open>XX_finslib_search_area\<close> is \<open>None\<close> where it returns \<^verbatim>\<open>NULL\<close>.
\<close>

record 'n fins_env =
  FINS_MAX_READ_WORDS_SYSWAY :: size_t
  INVALID_SOCKET :: int
  FI_RD :: int
  FINS_DATA_TYPE_BCD16 :: int
  XX_finslib_decode_address :: "string \<Rightarrow> fins_address_tp option"
  XX_finslib_search_area ::
    "'n fins_sys_tp \<Rightarrow> fins_address_tp \<Rightarrow> int \<Rightarrow> int \<Rightarrow> bool \<Rightarrow> fins_area_tp option"
  XX_finslib_init_command ::
    "'n fins_sys_tp \<Rightarrow> byte \<Rightarrow> byte \<Rightarrow> fins_command_tp \<times> 'n fins_sys_tp"
  XX_finslib_communicate ::
    "'n fins_sys_tp \<Rightarrow> fins_command_tp \<Rightarrow> size_t \<Rightarrow> bool \<Rightarrow>
       fins_retval \<times> 'n fins_sys_tp \<times> fins_command_tp \<times> size_t"
  finslib_bcd_to_int :: "16 word \<Rightarrow> int \<Rightarrow> int"

section \<open>src/fins_01_01_bcd16.c\<close>

text \<open>
  One entry of the observation log: a call of \<^verbatim>\<open>XX_finslib_communicate\<close> made by the chunk
  loop, with the loop variables at the call (\<open>c_start\<close>, \<open>c_length\<close>, \<open>c_offset\<close>),
  the command and length handed over, and what came back. The log is not a variable of
  the C code; it records the transport I/O the code performs, in order.
\<close>

record chunk =
  c_start :: size_t
  c_length :: size_t
  c_offset :: size_t
  c_cmnd :: fins_command_tp
  c_bodylen :: size_t
  c_retval :: fins_retval
  c_reply :: fins_command_tp
  c_replylen :: size_t

text \<open>The variables of \<^verbatim>\<open>process_data\<close> that live across iterations of the do-while loop.\<close>

record 'n loop_state =
  ls_sys :: "'n fins_sys_tp"
  ls_data :: "nat \<Rightarrow> 16 word"
  ls_offset :: size_t
  ls_todo :: size_t
  ls_chunk_start :: size_t
  ls_log :: "chunk list"

text \<open>What a call leaves behind: the return code, \<^verbatim>\<open>*sys\<close>, the array \<^verbatim>\<open>data[]\<close>, the log.\<close>

record 'n read_result =
  retval :: fins_retval
  out_sys :: "'n fins_sys_tp option"
  out_data :: "(nat \<Rightarrow> 16 word) option"
  out_log :: "chunk list"

text \<open>\<^verbatim>\<open>fins_cmnd.body[bodylen++] = v\<close>\<close>

definition put_body :: "fins_command_tp \<Rightarrow> size_t \<Rightarrow> byte \<Rightarrow> fins_command_tp \<times> size_t" where
  "put_body fins_cmnd bodylen v =
     (fins_cmnd\<lparr>body := (body fins_cmnd)(unat bodylen := v)\<rparr>, bodylen + 1)"

lemma unat_succ_below: "(a :: 'w::len word) < b \<Longrightarrow> unat (a + 1) = Suc (unat a)"
  by unat_arith

text \<open>
  The inner \<^verbatim>\<open>for (a=0; a<chunk_length; a++)\<close> loop (lines 131-138): two body bytes make
  one big-endian 16-bit word, which is converted and stored at \<^verbatim>\<open>data[offset+a]\<close>.
\<close>

function read_words ::
  "(16 word \<Rightarrow> int \<Rightarrow> int) \<Rightarrow> int \<Rightarrow> (nat \<Rightarrow> byte) \<Rightarrow> size_t \<Rightarrow> size_t \<Rightarrow>
     size_t \<Rightarrow> size_t \<Rightarrow> (nat \<Rightarrow> 16 word) \<Rightarrow> (nat \<Rightarrow> 16 word)"
where
  "read_words conv ty bdy chunk_length off a bodylen data =
     (if a < chunk_length then
        (let bcd_val = (ucast (bdy (unat bodylen)) :: 16 word);
             bodylen1 = bodylen + 1;
             bcd_val = push_bit 8 bcd_val;
             bcd_val = bcd_val + ucast (bdy (unat bodylen1));
             bodylen2 = bodylen1 + 1
         in read_words conv ty bdy chunk_length off (a + 1) bodylen2
              (data(unat (off + a) := word_of_int (conv bcd_val ty))))
      else data)"
  by pat_completeness auto
termination
  by (relation "measure (\<lambda>(conv, ty, bdy, chunk_length, off, a, bodylen, data).
                   unat chunk_length - unat a)")
     (auto simp: unat_succ_below word_less_nat_alt)

text \<open>Lines 111-112: the length of the next chunk.\<close>

definition next_chunk_length :: "'n fins_env \<Rightarrow> size_t \<Rightarrow> size_t" where
  "next_chunk_length env todo =
     (let chunk_length = FINS_MAX_READ_WORDS_SYSWAY env
      in if chunk_length > todo then todo else chunk_length)"

text \<open>
  Lines 114-123: the command 01 01 for one chunk. The body is the area code, the chunk
  origin in two bytes (high, low), a zero bit index, and the element count in two bytes.
\<close>

definition read_command ::
  "'n fins_env \<Rightarrow> 'n fins_sys_tp \<Rightarrow> fins_area_tp \<Rightarrow> size_t \<Rightarrow> size_t \<Rightarrow>
     fins_command_tp \<times> size_t \<times> 'n fins_sys_tp"
where
  "read_command env sys area_ptr chunk_start chunk_length =
     (let (fins_cmnd, sys) = XX_finslib_init_command env sys 0x01 0x01;
          bodylen = 0;
          (fins_cmnd, bodylen) = put_body fins_cmnd bodylen (area area_ptr);
          (fins_cmnd, bodylen) =
             put_body fins_cmnd bodylen (ucast (drop_bit 8 chunk_start AND 0xff));
          (fins_cmnd, bodylen) = put_body fins_cmnd bodylen (ucast (chunk_start AND 0xff));
          (fins_cmnd, bodylen) = put_body fins_cmnd bodylen 0x00;
          (fins_cmnd, bodylen) =
             put_body fins_cmnd bodylen (ucast (drop_bit 8 chunk_length AND 0xff));
          (fins_cmnd, bodylen) = put_body fins_cmnd bodylen (ucast (chunk_length AND 0xff))
      in (fins_cmnd, bodylen, sys))"

text \<open>
  One pass through the body of the do-while loop (lines 111-142). \<open>Inl\<close> is a
  \<^verbatim>\<open>return\<close> from inside the loop, with the state at that point; \<open>Inr\<close> is the state
  at the loop test \<^verbatim>\<open>while ( todo > 0 )\<close>.
\<close>

definition do_chunk ::
  "'n fins_env \<Rightarrow> int \<Rightarrow> fins_area_tp \<Rightarrow> 'n loop_state \<Rightarrow>
     (fins_retval \<times> 'n loop_state) + 'n loop_state"
where
  "do_chunk env ty area_ptr st =
     (let chunk_length = next_chunk_length env (ls_todo st);
          (fins_cmnd, bodylen, sys) =
             read_command env (ls_sys st) area_ptr (ls_chunk_start st) chunk_length;
          (rv, sys', reply, replylen) = XX_finslib_communicate env sys fins_cmnd bodylen True;
          st' = st\<lparr>ls_sys := sys',
                   ls_log := ls_log st @
                     [\<lparr>c_start = ls_chunk_start st, c_length = chunk_length, c_offset = ls_offset st,
                       c_cmnd = fins_cmnd, c_bodylen = bodylen, c_retval = rv,
                       c_reply = reply, c_replylen = replylen\<rparr>]\<rparr>
      in if rv \<noteq> FINS_RETVAL_SUCCESS then Inl (rv, st')
         else if replylen \<noteq> 2 + 2 * chunk_length then Inl (FINS_RETVAL_BODY_TOO_SHORT, st')
         else Inr (st'\<lparr>ls_data := read_words (finslib_bcd_to_int env) ty (body reply)
                                      chunk_length (ls_offset st) 0 2 (ls_data st),
                        ls_todo := ls_todo st - chunk_length,
                        ls_offset := ls_offset st + chunk_length,
                        ls_chunk_start := ls_chunk_start st + chunk_length\<rparr>))"

definition finish :: "fins_retval \<Rightarrow> 'n loop_state \<Rightarrow> 'n read_result" where
  "finish rv st =
     \<lparr>retval = rv, out_sys = Some (ls_sys st), out_data = Some (ls_data st),
      out_log = ls_log st\<rparr>"

text \<open>
  The do-while loop. Nothing in the C code bounds the number of passes when
  \<^verbatim>\<open>FINS_MAX_READ_WORDS_SYSWAY\<close> is 0, so the loop is a partial function: \<open>None\<close> is a
  loop that never returns.
\<close>

partial_function (option) chunk_loop ::
  "'n fins_env \<Rightarrow> int \<Rightarrow> fins_area_tp \<Rightarrow> 'n loop_state \<Rightarrow> 'n read_result option"
where
  "chunk_loop env ty area_ptr st =
     (case do_chunk env ty area_ptr st of
        Inl (rv, st') \<Rightarrow> Some (finish rv st')
      | Inr st' \<Rightarrow>
          if ls_todo st' > 0 then chunk_loop env ty area_ptr st'
          else Some (finish FINS_RETVAL_SUCCESS st'))"

text \<open>
  \<^verbatim>\<open>process_data\<close> (lines 80-148). \<^verbatim>\<open>sys\<close>, \<^verbatim>\<open>start\<close> and \<^verbatim>\<open>data\<close> are pointers and may be
  \<^verbatim>\<open>NULL\<close> (\<open>None\<close>). A \<^verbatim>\<open>return\<close> before the loop leaves \<^verbatim>\<open>*sys\<close> and \<^verbatim>\<open>data[]\<close> as they
  were and the log empty.
\<close>

definition early :: "fins_retval \<Rightarrow> 'n fins_sys_tp option \<Rightarrow> (nat \<Rightarrow> 16 word) option \<Rightarrow> 'n read_result" where
  "early rv sys data = \<lparr>retval = rv, out_sys = sys, out_data = data, out_log = []\<rparr>"

definition process_data ::
  "'n fins_env \<Rightarrow> 'n fins_sys_tp option \<Rightarrow> string option \<Rightarrow> (nat \<Rightarrow> 16 word) option \<Rightarrow>
     size_t \<Rightarrow> int \<Rightarrow> 'n read_result option"
where
  "process_data env sys start data num_bcd16 ty =
     (if num_bcd16 = 0 then Some (early FINS_RETVAL_SUCCESS sys data)
      else case sys of
        None \<Rightarrow> Some (early FINS_RETVAL_NOT_INITIALIZED sys data)
      | Some s \<Rightarrow>
      (case start of
        None \<Rightarrow> Some (early FINS_RETVAL_NO_READ_ADDRESS sys data)
      | Some addr_text \<Rightarrow>
      (case data of
        None \<Rightarrow> Some (early FINS_RETVAL_NO_DATA_BLOCK sys data)
      | Some d \<Rightarrow>
      if sockfd s = INVALID_SOCKET env then Some (early FINS_RETVAL_NOT_CONNECTED sys data)
      else
      (case XX_finslib_decode_address env addr_text of
        None \<Rightarrow> Some (early FINS_RETVAL_INVALID_READ_ADDRESS sys data)
      | Some address \<Rightarrow>
      (case XX_finslib_search_area env s address 16 (FI_RD env) False of
        None \<Rightarrow> Some (early FINS_RETVAL_INVALID_READ_AREA sys data)
      | Some area_ptr \<Rightarrow>
          chunk_loop env ty area_ptr
            \<lparr>ls_sys = s, ls_data = d, ls_offset = 0, ls_todo = num_bcd16,
             ls_chunk_start = ucast (main_address address)
                           + ucast (drop_bit 8 (low_addr area_ptr))
                           - ucast (low_id area_ptr),
             ls_log = []\<rparr>)))))"

text \<open>The two public entry points (lines 49-53 and 66-70).\<close>

definition finslib_memory_area_read_bcd16 ::
  "'n fins_env \<Rightarrow> 'n fins_sys_tp option \<Rightarrow> string option \<Rightarrow> (nat \<Rightarrow> 16 word) option \<Rightarrow>
     size_t \<Rightarrow> 'n read_result option"
where
  "finslib_memory_area_read_bcd16 env sys start data num_bcd16 =
     process_data env sys start data num_bcd16 (FINS_DATA_TYPE_BCD16 env)"

definition finslib_memory_area_read_sbcd16 ::
  "'n fins_env \<Rightarrow> 'n fins_sys_tp option \<Rightarrow> string option \<Rightarrow> (nat \<Rightarrow> 16 word) option \<Rightarrow>
     size_t \<Rightarrow> int \<Rightarrow> 'n read_result option"
where
  "finslib_memory_area_read_sbcd16 env sys start data num_sbcd16 ty =
     process_data env sys start data num_sbcd16 ty"

section \<open>src/fins_26_01.c\<close>

text \<open>
  A C string: the characters before the terminating NUL. Reading \<^verbatim>\<open>name[i]\<close> at the
  end of the list gives the terminator.
\<close>

definition char_at :: "string \<Rightarrow> nat \<Rightarrow> char" where
  "char_at name i = (if i < length name then name ! i else CHR 0x00)"

lemma copy_name_measure: "(b :: size_t) < 8 \<Longrightarrow> 8 - unat (b + 1) < 8 - unat b"
proof -
  assume b: "b < 8"
  then have "unat (b + 1) = Suc (unat b)"
    by (rule unat_succ_below)
  moreover have "unat b < 8"
    using b by (simp add: word_less_nat_alt)
  ultimately show ?thesis
    by simp
qed

text \<open>The \<^verbatim>\<open>while ( bodylen < 8  &&  name[bodylen] != '\0' )\<close> loop (lines 59-63).\<close>

function copy_name :: "string \<Rightarrow> fins_command_tp \<Rightarrow> size_t \<Rightarrow> fins_command_tp \<times> size_t" where
  "copy_name name fins_cmnd bodylen =
     (if bodylen < 8 \<and> char_at name (unat bodylen) \<noteq> CHR 0x00 then
        copy_name name
          (fins_cmnd\<lparr>body := (body fins_cmnd)(unat bodylen := of_char (char_at name (unat bodylen)))\<rparr>)
          (bodylen + 1)
      else (fins_cmnd, bodylen))"
  by pat_completeness auto
termination
  by (relation "measure (\<lambda>(name, fins_cmnd, bodylen). 8 - unat bodylen)")
     (simp_all add: copy_name_measure)

text \<open>One call of \<^verbatim>\<open>XX_finslib_communicate\<close> made by \<^verbatim>\<open>finslib_name_set\<close>.\<close>

record xfer =
  x_cmnd :: fins_command_tp
  x_bodylen :: size_t

record 'n name_result =
  n_retval :: fins_retval
  n_sys :: "'n fins_sys_tp option"
  n_log :: "xfer list"

text \<open>\<^verbatim>\<open>finslib_name_set\<close> (lines 45-71).\<close>

definition finslib_name_set ::
  "'n fins_env \<Rightarrow> 'n fins_sys_tp option \<Rightarrow> string option \<Rightarrow> 'n name_result"
where
  "finslib_name_set env sys name =
     (case sys of
        None \<Rightarrow> \<lparr>n_retval = FINS_RETVAL_NOT_INITIALIZED, n_sys = sys, n_log = []\<rparr>
      | Some s \<Rightarrow>
      if sockfd s = INVALID_SOCKET env
      then \<lparr>n_retval = FINS_RETVAL_NOT_CONNECTED, n_sys = sys, n_log = []\<rparr>
      else
      (case name of
        None \<Rightarrow> \<lparr>n_retval = FINS_RETVAL_NO_DATA_BLOCK, n_sys = sys, n_log = []\<rparr>
      | Some nm \<Rightarrow>
         (let (fins_cmnd, s1) = XX_finslib_init_command env s 0x26 0x01;
              bodylen = 0;
              (fins_cmnd, bodylen) = copy_name nm fins_cmnd bodylen;
              (rv, s2, reply, replylen) = XX_finslib_communicate env s1 fins_cmnd bodylen True;
              log = [\<lparr>x_cmnd = fins_cmnd, x_bodylen = bodylen\<rparr>]
          in if rv \<noteq> FINS_RETVAL_SUCCESS
             then \<lparr>n_retval = rv, n_sys = Some s2, n_log = log\<rparr>
             else if replylen \<noteq> 2
             then \<lparr>n_retval = FINS_RETVAL_BODY_TOO_SHORT, n_sys = Some s2, n_log = log\<rparr>
             else \<lparr>n_retval = FINS_RETVAL_SUCCESS, n_sys = Some s2, n_log = log\<rparr>)))"

section \<open>Notions used in the statements\<close>

text \<open>
  \<open>exchange env area_ptr st\<close> is the result of the call of \<^verbatim>\<open>XX_finslib_communicate\<close>
  (line 125) in the pass of the loop that starts in state \<open>st\<close>; \<open>logged env area_ptr st\<close>
  is the state right after that call: the session as the call left it and one more entry
  in the log.
\<close>

definition exchange ::
  "'n fins_env \<Rightarrow> fins_area_tp \<Rightarrow> 'n loop_state \<Rightarrow>
     fins_retval \<times> 'n fins_sys_tp \<times> fins_command_tp \<times> size_t"
where
  "exchange env area_ptr st =
     (let (fins_cmnd, bodylen, sys) =
             read_command env (ls_sys st) area_ptr (ls_chunk_start st)
               (next_chunk_length env (ls_todo st))
      in XX_finslib_communicate env sys fins_cmnd bodylen True)"

definition logged :: "'n fins_env \<Rightarrow> fins_area_tp \<Rightarrow> 'n loop_state \<Rightarrow> 'n loop_state" where
  "logged env area_ptr st =
     (let chunk_length = next_chunk_length env (ls_todo st);
          (fins_cmnd, bodylen, sys) =
             read_command env (ls_sys st) area_ptr (ls_chunk_start st) chunk_length;
          (rv, sys', reply, replylen) = XX_finslib_communicate env sys fins_cmnd bodylen True
      in st\<lparr>ls_sys := sys',
             ls_log := ls_log st @
                     [\<lparr>c_start = ls_chunk_start st, c_length = chunk_length, c_offset = ls_offset st,
                       c_cmnd = fins_cmnd, c_bodylen = bodylen, c_retval = rv,
                       c_reply = reply, c_replylen = replylen\<rparr>]\<rparr>)"


text \<open>
  The 16-bit word that lines 133-135 assemble for element \<open>a\<close> of a chunk: the bytes at
  the indices \<^verbatim>\<open>2+2*a\<close> and \<^verbatim>\<open>2+2*a+1\<close> of the response body, high byte first. The index
  arithmetic is that of \<^verbatim>\<open>size_t\<close>, as in the code.
\<close>

definition wire_word :: "(nat \<Rightarrow> byte) \<Rightarrow> size_t \<Rightarrow> 16 word" where
  "wire_word bdy a =
     push_bit 8 (ucast (bdy (unat (2 + 2 * a)))) + ucast (bdy (unat (2 + 2 * a + 1)))"

text \<open>
  \<open>start_state\<close> is the state in which \<^verbatim>\<open>process_data\<close> enters the loop (lines 104-108),
  and \<open>loop_entry\<close> says whether and how a call gets there: it is \<open>None\<close> when one of the
  checks of lines 94-102 returns first. \<open>passes env ty area_ptr k st\<close> is the state after
  \<open>k\<close> passes of the loop that all went through and left something to do, and
  \<open>pass_state\<close> is the same for a whole call: the state at the start of pass \<open>k\<close>
  (counted from 0) of the read, if the read gets that far. \<open>name_exchange\<close> is the
  result of the call of \<^verbatim>\<open>XX_finslib_communicate\<close> in \<^verbatim>\<open>finslib_name_set\<close> (line 65).
\<close>

definition start_state ::
  "'n fins_sys_tp \<Rightarrow> (nat \<Rightarrow> 16 word) \<Rightarrow> size_t \<Rightarrow> fins_address_tp \<Rightarrow> fins_area_tp \<Rightarrow>
     'n loop_state"
where
  "start_state s d num_bcd16 address area_ptr =
     \<lparr>ls_sys = s, ls_data = d, ls_offset = 0, ls_todo = num_bcd16,
      ls_chunk_start = ucast (main_address address)
                       + ucast (drop_bit 8 (low_addr area_ptr))
                       - ucast (low_id area_ptr),
      ls_log = []\<rparr>"

definition loop_entry ::
  "'n fins_env \<Rightarrow> 'n fins_sys_tp option \<Rightarrow> string option \<Rightarrow> (nat \<Rightarrow> 16 word) option \<Rightarrow>
     size_t \<Rightarrow> (fins_area_tp \<times> 'n loop_state) option"
where
  "loop_entry env sys start data num_bcd16 =
     (case (sys, start, data) of
        (Some s, Some addr_text, Some d) \<Rightarrow>
          if num_bcd16 = 0 \<or> sockfd s = INVALID_SOCKET env then None
          else (case XX_finslib_decode_address env addr_text of
                  None \<Rightarrow> None
                | Some address \<Rightarrow>
                   (case XX_finslib_search_area env s address 16 (FI_RD env) False of
                      None \<Rightarrow> None
                    | Some area_ptr \<Rightarrow>
                        Some (area_ptr, start_state s d num_bcd16 address area_ptr)))
      | _ \<Rightarrow> None)"

fun passes ::
  "'n fins_env \<Rightarrow> int \<Rightarrow> fins_area_tp \<Rightarrow> nat \<Rightarrow> 'n loop_state \<Rightarrow> 'n loop_state option"
where
  "passes env ty area_ptr 0 st = Some st"
| "passes env ty area_ptr (Suc k) st =
     (case do_chunk env ty area_ptr st of
        Inl failure \<Rightarrow> None
      | Inr st' \<Rightarrow> if ls_todo st' > 0 then passes env ty area_ptr k st' else None)"

definition pass_state ::
  "'n fins_env \<Rightarrow> 'n fins_sys_tp option \<Rightarrow> string option \<Rightarrow> (nat \<Rightarrow> 16 word) option \<Rightarrow>
     size_t \<Rightarrow> int \<Rightarrow> nat \<Rightarrow> (fins_area_tp \<times> 'n loop_state) option"
where
  "pass_state env sys start data num_bcd16 ty k =
     (case loop_entry env sys start data num_bcd16 of
        None \<Rightarrow> None
      | Some (area_ptr, st0) \<Rightarrow>
          (case passes env ty area_ptr k st0 of
             None \<Rightarrow> None
           | Some st \<Rightarrow> Some (area_ptr, st)))"

definition name_exchange ::
  "'n fins_env \<Rightarrow> 'n fins_sys_tp \<Rightarrow> string \<Rightarrow>
     fins_retval \<times> 'n fins_sys_tp \<times> fins_command_tp \<times> size_t"
where
  "name_exchange env s nm =
     (let (fins_cmnd, s1) = XX_finslib_init_command env s 0x26 0x01;
          (fins_cmnd, bodylen) = copy_name nm fins_cmnd 0
      in XX_finslib_communicate env s1 fins_cmnd bodylen True)"

text \<open>
  \<open>name_command\<close> is the command and length that \<^verbatim>\<open>finslib_name_set\<close> hands to
  \<^verbatim>\<open>XX_finslib_communicate\<close> (lines 55-63).
\<close>

definition name_command :: "'n fins_env \<Rightarrow> 'n fins_sys_tp \<Rightarrow> string \<Rightarrow> fins_command_tp \<times> size_t" where
  "name_command env s nm =
     (let (fins_cmnd, s1) = XX_finslib_init_command env s 0x26 0x01
      in copy_name nm fins_cmnd 0)"

text \<open>
  \<open>tiles lo spans hi\<close>: the spans (position, length), in the order of the list, are
  not empty and lie end to end from \<open>lo\<close> to \<open>hi\<close>: the first starts at \<open>lo\<close>, each
  next one starts where the one before ends, the last ends at \<open>hi\<close>. \<open>span c\<close> is
  the part of the output array that belongs to the chunk \<open>c\<close> of the log.
\<close>

fun tiles :: "nat \<Rightarrow> (nat \<times> nat) list \<Rightarrow> nat \<Rightarrow> bool" where
  "tiles lo [] hi = (lo = hi)"
| "tiles lo ((p, l) # cs) hi = (p = lo \<and> 0 < l \<and> tiles (lo + l) cs hi)"

definition span :: "chunk \<Rightarrow> nat \<times> nat" where
  "span c = (unat (c_offset c), unat (c_length c))"

text \<open>
  The invariant of the do-while loop at the start of a pass, for a read of \<open>n\<close> elements
  whose first chunk starts at \<open>base\<close> into an array that held \<open>d\<close>: the elements
  done and those to do add up to \<open>n\<close>; the chunk origin has advanced with the offset; the
  chunks of the log tile the array from 0 to the offset, each is at most
  \<^verbatim>\<open>FINS_MAX_READ_WORDS_SYSWAY\<close> long and was answered with success and the expected length;
  the array holds the converted word of every element of every chunk of the log; from
  the offset on it is as the caller passed it; and the first chunk of the log has the
  length that lines 111-112 give for \<open>n\<close> elements to do.
\<close>

definition loop_inv ::
  "'n fins_env \<Rightarrow> int \<Rightarrow> size_t \<Rightarrow> size_t \<Rightarrow> (nat \<Rightarrow> 16 word) \<Rightarrow> 'n loop_state \<Rightarrow> bool"
where
  "loop_inv env ty n base d st \<longleftrightarrow>
     unat (ls_offset st) + unat (ls_todo st) = unat n
   \<and> ls_chunk_start st = base + ls_offset st
   \<and> tiles 0 (map span (ls_log st)) (unat (ls_offset st))
   \<and> (\<forall>c\<in>set (ls_log st).
         c_length c \<le> FINS_MAX_READ_WORDS_SYSWAY env \<and> c_start c = base + c_offset c
       \<and> c_retval c = FINS_RETVAL_SUCCESS \<and> c_replylen c = 2 + 2 * c_length c
       \<and> unat (c_offset c) + unat (c_length c) \<le> unat (ls_offset st))
   \<and> (\<forall>c\<in>set (ls_log st). \<forall>a<c_length c.
         ls_data st (unat (c_offset c) + unat a) =
           word_of_int (finslib_bcd_to_int env (wire_word (body (c_reply c)) a) ty))
   \<and> (\<forall>i\<ge>unat (ls_offset st). ls_data st i = d i)
   \<and> (ls_log st \<noteq> [] \<longrightarrow> c_length (hd (ls_log st)) = next_chunk_length env n)"

text \<open>
  \<open>strlen\<close> is the length of a C string: the number of characters before the first
  NUL. \<open>sent_bytes x\<close> are the body bytes of the command that the exchange \<open>x\<close> handed
  to \<^verbatim>\<open>XX_finslib_communicate\<close>: the first \<^verbatim>\<open>bodylen\<close> bytes of \<^verbatim>\<open>body[]\<close>.
\<close>

definition strlen :: "string \<Rightarrow> nat" where
  "strlen nm = length (takeWhile (\<lambda>ch. ch \<noteq> CHR 0x00) nm)"

definition sent_bytes :: "xfer \<Rightarrow> byte list" where
  "sent_bytes x = map (body (x_cmnd x)) [0..<unat (x_bodylen x)]"

text \<open>
  What a pass of the loop hands to \<^verbatim>\<open>XX_finslib_communicate\<close> (lines 118-125).
  \<open>request_bytes c\<close> are the first \<^verbatim>\<open>bodylen\<close> bytes of \<^verbatim>\<open>fins_cmnd.body[]\<close> at the call of
  the log entry \<open>c\<close>. \<open>wire_origin c\<close> and \<open>wire_count c\<close> are the two numbers that
  this body carries for the controller: the bytes at the indices 1 and 2, and at 4 and 5,
  read as 16-bit numbers with the high byte first. \<open>read_request env area_ptr c\<close> says
  that the entry \<open>c\<close> carries the request of lines 114-123 for the origin and the
  length that the entry records: six body bytes in a command initialised for 01 01.
\<close>

definition request_bytes :: "chunk \<Rightarrow> byte list" where
  "request_bytes c = map (body (c_cmnd c)) [0..<unat (c_bodylen c)]"

definition wire_origin :: "chunk \<Rightarrow> 16 word" where
  "wire_origin c = push_bit 8 (ucast (body (c_cmnd c) 1)) + ucast (body (c_cmnd c) 2)"

definition wire_count :: "chunk \<Rightarrow> 16 word" where
  "wire_count c = push_bit 8 (ucast (body (c_cmnd c) 4)) + ucast (body (c_cmnd c) 5)"

definition read_request :: "'n fins_env \<Rightarrow> fins_area_tp \<Rightarrow> chunk \<Rightarrow> bool" where
  "read_request env area_ptr c \<longleftrightarrow>
     c_bodylen c = 6
   \<and> request_bytes c =
       [area area_ptr, ucast (drop_bit 8 (c_start c)), ucast (c_start c), 0x00,
        ucast (drop_bit 8 (c_length c)), ucast (c_length c)]
   \<and> (\<exists>s. header (c_cmnd c) = header (fst (XX_finslib_init_command env s 0x01 0x01)))"

section \<open>The value codec\<close>

text \<open>
  Modelled from the spec: \<^verbatim>\<open>finslib_bcd_to_int\<close> and its inverse are defined in other files
  of the library, which are not among the sources. The definitions below follow
  section 4.3 of the specification. Unsigned BCD16: each of the four nibbles must be a
  decimal digit 0-9, the value is the sum of digit times 10 to the position (position 0
  is the least significant nibble), and a nibble above 9 replaces the whole value by the
  sentinel, the largest signed 16-bit value.
\<close>

definition bcd_nibble :: "16 word \<Rightarrow> nat \<Rightarrow> nat" where
  "bcd_nibble w k = unat (drop_bit (4 * k) w AND 0xF)"

definition INT16_MAX :: int where
  "INT16_MAX = 32767"

definition bcd_valid :: "16 word \<Rightarrow> bool" where
  "bcd_valid w = list_all (\<lambda>k. bcd_nibble w k \<le> 9) [0..<4]"

definition decode_unsigned_bcd16 :: "16 word \<Rightarrow> int" where
  "decode_unsigned_bcd16 w =
     (if bcd_valid w then int (sum_list (map (\<lambda>k. bcd_nibble w k * 10 ^ k) [0..<4]))
      else INT16_MAX)"

definition encode_unsigned_bcd16 :: "int \<Rightarrow> 16 word" where
  "encode_unsigned_bcd16 v =
     word_of_nat (sum_list (map (\<lambda>k. (nat v div 10 ^ k mod 10) * 16 ^ k) [0..<4]))"

text \<open>
  Modelled from the spec: a signed BCD16 variant. The specification leaves the set of
  sign conventions open (section 9) and asks for a strategy: a variant says which part
  of the word is the magnitude and how the sign is applied. The magnitude is decoded by
  the unsigned rule; the whole value is the sentinel when the magnitude is invalid, and
  the sign is applied only when the magnitude is valid.
\<close>

record sbcd_variant =
  magnitude_of :: "16 word \<Rightarrow> 16 word"
  sign_of :: "16 word \<Rightarrow> int \<Rightarrow> int"

definition decode_signed_bcd16 :: "sbcd_variant \<Rightarrow> 16 word \<Rightarrow> int" where
  "decode_signed_bcd16 v w =
     (if bcd_valid (magnitude_of v w)
      then sign_of v w (decode_unsigned_bcd16 (magnitude_of v w))
      else INT16_MAX)"

section \<open>A scripted controller\<close>

text \<open>
  A concrete environment for the examples: the remote end is a list of scripted answers,
  one per exchange, each a return code and the bytes of a response body. An exchange
  takes the next answer; when the script is used up the exchange fails with another
  code. Two address texts parse (\<^verbatim>\<open>D100\<close> and \<^verbatim>\<open>Q7\<close>), and only the first lies in an area.
\<close>

type_synonym script = "(fins_retval \<times> byte list) list"

definition reply_body :: "byte list \<Rightarrow> nat \<Rightarrow> byte" where
  "reply_body bytes i = (if i < length bytes then bytes ! i else 0)"

definition scripted_communicate ::
  "script fins_sys_tp \<Rightarrow> fins_command_tp \<Rightarrow> size_t \<Rightarrow> bool \<Rightarrow>
     fins_retval \<times> script fins_sys_tp \<times> fins_command_tp \<times> size_t"
where
  "scripted_communicate sys cmnd bodylen wait =
     (case peer sys of
        [] \<Rightarrow> (FINS_RETVAL_OTHER 1, sys, cmnd, 0)
      | (rv, bytes) # rest \<Rightarrow>
          (rv, sys\<lparr>peer := rest\<rparr>,
           cmnd\<lparr>body := reply_body bytes\<rparr>,
           of_nat (length bytes)))"

definition demo_area :: fins_area_tp where
  "demo_area = \<lparr>area = 0x82, low_id = 0, low_addr = 0\<rparr>"

definition demo_env :: "size_t \<Rightarrow> (16 word \<Rightarrow> int \<Rightarrow> int) \<Rightarrow> script fins_env" where
  "demo_env max_words conv =
     \<lparr>FINS_MAX_READ_WORDS_SYSWAY = max_words,
      INVALID_SOCKET = - 1,
      FI_RD = 1,
      FINS_DATA_TYPE_BCD16 = 0,
      XX_finslib_decode_address =
        (\<lambda>text. if text = ''D100'' then Some \<lparr>main_address = 100, sub_address = 0\<rparr>
                else if text = ''Q7'' then Some \<lparr>main_address = 7, sub_address = 0\<rparr>
                else None),
      XX_finslib_search_area =
        (\<lambda>sys address bits access force.
           if main_address address = 100 then Some demo_area else None),
      XX_finslib_init_command =
        (\<lambda>sys mrc src. (\<lparr>header = [mrc, src], body = (\<lambda>i. 0)\<rparr>, sys)),
      XX_finslib_communicate = scripted_communicate,
      finslib_bcd_to_int = conv\<rparr>"

definition demo_sys :: "int \<Rightarrow> transport_kind \<Rightarrow> script \<Rightarrow> script fins_sys_tp" where
  "demo_sys fd kind replies = \<lparr>sockfd = fd, transport = kind, peer = replies\<rparr>"

text \<open>
  The conversion of the examples is the unsigned BCD16 decoder for every type; the two
  response bodies carry the BCD words 1234, 0007, 9999 and 0042, 5678 after the two
  end-code bytes; \<open>blank\<close> is an output array filled with \<^verbatim>\<open>0xFFFF\<close>.
\<close>

definition bcd_conv :: "16 word \<Rightarrow> int \<Rightarrow> int" where
  "bcd_conv w ty = decode_unsigned_bcd16 w"

definition first_reply :: "byte list" where
  "first_reply = [0, 0, 0x12, 0x34, 0x00, 0x07, 0x99, 0x99]"

definition second_reply :: "byte list" where
  "second_reply = [0, 0, 0x00, 0x42, 0x56, 0x78]"

definition blank :: "nat \<Rightarrow> 16 word" where
  "blank i = 0xFFFF"

text \<open>
  Two malformed answers to a request for two words: one two bytes short of the six bytes
  expected, one two bytes longer.
\<close>

definition short_reply :: "byte list" where
  "short_reply = [0, 0, 0x00, 0x42]"

definition long_reply :: "byte list" where
  "long_reply = [0, 0, 0x00, 0x42, 0x56, 0x78, 0x00, 0x00]"

text \<open>
  An example of a signed variant: the top nibble is the sign (not zero means negative)
  and the three nibbles below are the magnitude. And a response body with two words, the
  second of which, \<^verbatim>\<open>0x12A4\<close>, is not BCD.
\<close>

definition sign_nibble_variant :: sbcd_variant where
  "sign_nibble_variant =
     \<lparr>magnitude_of = (\<lambda>w. w AND 0x0FFF),
      sign_of = (\<lambda>w m. if drop_bit 12 w = 0 then m else - m)\<rparr>"

definition invalid_reply :: "byte list" where
  "invalid_reply = [0, 0, 0x12, 0x34, 0x12, 0xA4]"

section \<open>One pass of the loop\<close>

lemma do_chunk_unfold:
  assumes rc: "read_command env (ls_sys st) area_ptr (ls_chunk_start st)
                 (next_chunk_length env (ls_todo st)) = (fins_cmnd, bodylen, sys)"
    and co: "XX_finslib_communicate env sys fins_cmnd bodylen True = (rv, sys', reply, replylen)"
  shows "exchange env area_ptr st = (rv, sys', reply, replylen)"
    and "logged env area_ptr st =
           st\<lparr>ls_sys := sys',
              ls_log := ls_log st @
                [\<lparr>c_start = ls_chunk_start st, c_length = next_chunk_length env (ls_todo st),
                  c_offset = ls_offset st, c_cmnd = fins_cmnd, c_bodylen = bodylen,
                  c_retval = rv, c_reply = reply, c_replylen = replylen\<rparr>]\<rparr>"
    and "do_chunk env ty area_ptr st =
           (if rv \<noteq> FINS_RETVAL_SUCCESS then Inl (rv, logged env area_ptr st)
            else if replylen \<noteq> 2 + 2 * next_chunk_length env (ls_todo st)
            then Inl (FINS_RETVAL_BODY_TOO_SHORT, logged env area_ptr st)
            else Inr ((logged env area_ptr st)
                 \<lparr>ls_data := read_words (finslib_bcd_to_int env) ty (body reply)
                      (next_chunk_length env (ls_todo st)) (ls_offset st) 0 2 (ls_data st),
                  ls_todo := ls_todo st - next_chunk_length env (ls_todo st),
                  ls_offset := ls_offset st + next_chunk_length env (ls_todo st),
                  ls_chunk_start := ls_chunk_start st + next_chunk_length env (ls_todo st)\<rparr>))"
  by (simp_all add: exchange_def logged_def do_chunk_def Let_def rc co)

lemma exchange_cases:
  obtains fins_cmnd bodylen sys rv sys' reply replylen where
    "read_command env (ls_sys st) area_ptr (ls_chunk_start st)
       (next_chunk_length env (ls_todo st)) = (fins_cmnd, bodylen, sys)"
    "XX_finslib_communicate env sys fins_cmnd bodylen True = (rv, sys', reply, replylen)"
proof -
  obtain fins_cmnd bodylen sys where rc:
    "read_command env (ls_sys st) area_ptr (ls_chunk_start st)
       (next_chunk_length env (ls_todo st)) = (fins_cmnd, bodylen, sys)"
    by (rule prod_cases3)
  obtain rv sys' reply replylen where
    "XX_finslib_communicate env sys fins_cmnd bodylen True = (rv, sys', reply, replylen)"
    by (rule prod_cases4)
  with rc show thesis by (rule that)
qed

lemma do_chunk_eq:
  assumes ex: "exchange env area_ptr st = (rv, sys', reply, replylen)"
  shows "do_chunk env ty area_ptr st =
           (if rv \<noteq> FINS_RETVAL_SUCCESS then Inl (rv, logged env area_ptr st)
            else if replylen \<noteq> 2 + 2 * next_chunk_length env (ls_todo st)
            then Inl (FINS_RETVAL_BODY_TOO_SHORT, logged env area_ptr st)
            else Inr ((logged env area_ptr st)
                 \<lparr>ls_data := read_words (finslib_bcd_to_int env) ty (body reply)
                      (next_chunk_length env (ls_todo st)) (ls_offset st) 0 2 (ls_data st),
                  ls_todo := ls_todo st - next_chunk_length env (ls_todo st),
                  ls_offset := ls_offset st + next_chunk_length env (ls_todo st),
                  ls_chunk_start := ls_chunk_start st + next_chunk_length env (ls_todo st)\<rparr>))"
proof -
  obtain fins_cmnd bodylen sys rv0 sys0 reply0 replylen0 where
    rc: "read_command env (ls_sys st) area_ptr (ls_chunk_start st)
           (next_chunk_length env (ls_todo st)) = (fins_cmnd, bodylen, sys)"
    and co: "XX_finslib_communicate env sys fins_cmnd bodylen True = (rv0, sys0, reply0, replylen0)"
    by (rule exchange_cases)
  have "exchange env area_ptr st = (rv0, sys0, reply0, replylen0)"
    using rc co by (rule do_chunk_unfold(1))
  with ex have eq: "rv0 = rv" "sys0 = sys'" "reply0 = reply" "replylen0 = replylen"
    by simp_all
  show ?thesis
    using do_chunk_unfold(3) [OF rc co, of ty] by (simp only: eq)
qed

lemma logged_eq:
  assumes ex: "exchange env area_ptr st = (rv, sys', reply, replylen)"
  shows "\<exists>fins_cmnd bodylen. logged env area_ptr st =
           st\<lparr>ls_sys := sys',
              ls_log := ls_log st @
                [\<lparr>c_start = ls_chunk_start st, c_length = next_chunk_length env (ls_todo st),
                  c_offset = ls_offset st, c_cmnd = fins_cmnd, c_bodylen = bodylen,
                  c_retval = rv, c_reply = reply, c_replylen = replylen\<rparr>]\<rparr>"
proof -
  obtain fins_cmnd bodylen sys rv0 sys0 reply0 replylen0 where
    rc: "read_command env (ls_sys st) area_ptr (ls_chunk_start st)
           (next_chunk_length env (ls_todo st)) = (fins_cmnd, bodylen, sys)"
    and co: "XX_finslib_communicate env sys fins_cmnd bodylen True = (rv0, sys0, reply0, replylen0)"
    by (rule exchange_cases)
  have "exchange env area_ptr st = (rv0, sys0, reply0, replylen0)"
    using rc co by (rule do_chunk_unfold(1))
  with ex have eq: "rv0 = rv" "sys0 = sys'" "reply0 = reply" "replylen0 = replylen"
    by simp_all
  show ?thesis
    using do_chunk_unfold(2) [OF rc co] unfolding eq by blast
qed

lemma chunk_loop_Inl:
  "do_chunk env ty area_ptr st = Inl (rv, st') \<Longrightarrow>
   chunk_loop env ty area_ptr st = Some (finish rv st')"
  by (subst chunk_loop.simps) simp

lemma chunk_loop_Inr_more:
  "do_chunk env ty area_ptr st = Inr st' \<Longrightarrow> ls_todo st' > 0 \<Longrightarrow>
   chunk_loop env ty area_ptr st = chunk_loop env ty area_ptr st'"
  by (subst chunk_loop.simps) simp

lemma chunk_loop_Inr_done:
  "do_chunk env ty area_ptr st = Inr st' \<Longrightarrow> \<not> ls_todo st' > 0 \<Longrightarrow>
   chunk_loop env ty area_ptr st = Some (finish FINS_RETVAL_SUCCESS st')"
  by (subst chunk_loop.simps) simp

section \<open>The inner loop\<close>

declare read_words.simps [simp del]

lemma word_succ_le: "(a :: 'w::len word) < b \<Longrightarrow> a \<le> a + 1"
  by unat_arith

lemma word_succ_le_lt: "(a :: 'w::len word) < b \<Longrightarrow> a + 1 \<le> c \<Longrightarrow> a < c"
  by unat_arith

lemma word_lt_succ_le: "(a :: 'w::len word) < c \<Longrightarrow> a + 1 \<le> c"
  by unat_arith

lemma read_words_step:
  "a < chunk_length \<Longrightarrow>
   read_words conv ty bdy chunk_length off a bodylen data =
     read_words conv ty bdy chunk_length off (a + 1) (bodylen + 2)
       (data(unat (off + a) :=
          word_of_int (conv (push_bit 8 (ucast (bdy (unat bodylen))) + ucast (bdy (unat (bodylen + 1)))) ty)))"
  by (subst read_words.simps) (simp add: Let_def add.assoc)

lemma read_words_stop:
  "\<not> a < chunk_length \<Longrightarrow> read_words conv ty bdy chunk_length off a bodylen data = data"
  by (subst read_words.simps) simp

lemma read_words_frame:
  "(\<And>a. a0 \<le> a \<Longrightarrow> a < chunk_length \<Longrightarrow> i \<noteq> unat (off + a)) \<Longrightarrow>
   read_words conv ty bdy chunk_length off a0 bodylen data i = data i"
proof (induction conv ty bdy chunk_length off a0 bodylen data rule: read_words.induct)
  case (1 conv ty bdy chunk_length off a bodylen data)
  show ?case
  proof (cases "a < chunk_length")
    case True
    have le: "a \<le> a + 1"
      using True by (rule word_succ_le)
    have ne: "i \<noteq> unat (off + a)"
      using "1.prems" [of a] True by simp
    have rest: "\<And>a'. a + 1 \<le> a' \<Longrightarrow> a' < chunk_length \<Longrightarrow> i \<noteq> unat (off + a')"
    proof -
      fix a' assume le': "a + 1 \<le> a'" and lt': "a' < chunk_length"
      from le le' have "a \<le> a'" by (rule order_trans)
      then show "i \<noteq> unat (off + a')" using lt' by (rule "1.prems")
    qed
    have "read_words conv ty bdy chunk_length off (a + 1) (bodylen + 1 + 1)
            (data(unat (off + a) := word_of_int (conv (push_bit 8 (ucast (bdy (unat bodylen))) + ucast (bdy (unat (bodylen + 1)))) ty))) i
          = (data(unat (off + a) := word_of_int (conv (push_bit 8 (ucast (bdy (unat bodylen))) + ucast (bdy (unat (bodylen + 1)))) ty))) i"
      using rest by (rule "1.IH" [OF True refl refl refl refl refl])
    then show ?thesis
      using ne by (simp add: read_words_step [OF True] add.assoc)
  next
    case False
    then show ?thesis by (simp add: read_words_stop)
  qed
qed

lemma read_words_at:
  "a0 \<le> a \<Longrightarrow> a < chunk_length \<Longrightarrow> bodylen = 2 + 2 * a0 \<Longrightarrow>
   read_words conv ty bdy chunk_length off a0 bodylen data (unat (off + a)) =
     word_of_int (conv (wire_word bdy a) ty)"
proof (induction conv ty bdy chunk_length off a0 bodylen data rule: read_words.induct)
  case (1 conv ty bdy chunk_length off a0 bodylen data)
  have lt: "a0 < chunk_length"
    using "1.prems"(1,2) by (rule le_less_trans)
  have bl: "bodylen = 2 + 2 * a0"
    by (rule "1.prems"(3))
  let ?v = "word_of_int (conv (push_bit 8 (ucast (bdy (unat bodylen))) + ucast (bdy (unat (bodylen + 1)))) ty) :: 16 word"
  have v: "?v = word_of_int (conv (wire_word bdy a0) ty)"
    by (simp add: wire_word_def bl)
  show ?case
  proof (cases "a = a0")
    case True
    have "\<And>a'. a0 + 1 \<le> a' \<Longrightarrow> a' < chunk_length \<Longrightarrow> unat (off + a0) \<noteq> unat (off + a')"
    proof -
      fix a' assume le': "a0 + 1 \<le> a'" and "a' < chunk_length"
      from lt le' have "a0 < a'" by (rule word_succ_le_lt)
      then show "unat (off + a0) \<noteq> unat (off + a')"
        by (auto simp: word_unat_eq_iff [symmetric])
    qed
    then have "read_words conv ty bdy chunk_length off (a0 + 1) (bodylen + 2)
                 (data(unat (off + a0) := ?v)) (unat (off + a0))
               = (data(unat (off + a0) := ?v)) (unat (off + a0))"
      by (rule read_words_frame)
    then show ?thesis
      using True v by (simp add: read_words_step [OF lt])
  next
    case False
    with "1.prems"(1) have "a0 < a" by simp
    then have le': "a0 + 1 \<le> a" by (rule word_lt_succ_le)
    have bl': "bodylen + 1 + 1 = 2 + 2 * (a0 + 1)"
      using bl by simp
    have "read_words conv ty bdy chunk_length off (a0 + 1) (bodylen + 1 + 1)
            (data(unat (off + a0) := ?v)) (unat (off + a))
          = word_of_int (conv (wire_word bdy a) ty)"
      using le' "1.prems"(2) bl' by (rule "1.IH" [OF lt refl refl refl refl refl])
    then show ?thesis
      by (simp add: read_words_step [OF lt] add.assoc)
  qed
qed

section \<open>From the call to a pass of the loop\<close>

lemma loop_entry_SomeD:
  assumes "loop_entry env sys start data num_bcd16 = Some (area_ptr, st0)"
  obtains s addr_text d address where
    "sys = Some s" "start = Some addr_text" "data = Some d"
    "num_bcd16 \<noteq> 0" "sockfd s \<noteq> INVALID_SOCKET env"
    "XX_finslib_decode_address env addr_text = Some address"
    "XX_finslib_search_area env s address 16 (FI_RD env) False = Some area_ptr"
    "st0 = start_state s d num_bcd16 address area_ptr"
  using assms by (auto simp: loop_entry_def split: option.splits if_splits)

lemma process_data_loop:
  assumes "loop_entry env sys start data num_bcd16 = Some (area_ptr, st0)"
  shows "process_data env sys start data num_bcd16 ty = chunk_loop env ty area_ptr st0"
proof -
  from assms obtain s addr_text d address where
    "sys = Some s" "start = Some addr_text" "data = Some d"
    "num_bcd16 \<noteq> 0" "sockfd s \<noteq> INVALID_SOCKET env"
    "XX_finslib_decode_address env addr_text = Some address"
    "XX_finslib_search_area env s address 16 (FI_RD env) False = Some area_ptr"
    "st0 = start_state s d num_bcd16 address area_ptr"
    by (rule loop_entry_SomeD)
  then show ?thesis
    by (simp add: process_data_def start_state_def)
qed

lemma passes_loop:
  "passes env ty area_ptr k st0 = Some st \<Longrightarrow>
   chunk_loop env ty area_ptr st0 = chunk_loop env ty area_ptr st"
proof (induction k arbitrary: st0)
  case 0
  then show ?case by simp
next
  case (Suc k)
  from Suc.prems obtain st' where
    dc: "do_chunk env ty area_ptr st0 = Inr st'" and more: "ls_todo st' > 0"
    and rest: "passes env ty area_ptr k st' = Some st"
    by (auto split: sum.splits if_splits)
  have "chunk_loop env ty area_ptr st0 = chunk_loop env ty area_ptr st'"
    using dc more by (rule chunk_loop_Inr_more)
  also have "\<dots> = chunk_loop env ty area_ptr st"
    using rest by (rule Suc.IH)
  finally show ?case .
qed

lemma process_data_pass:
  assumes "pass_state env sys start data num_bcd16 ty k = Some (area_ptr, st)"
  shows "process_data env sys start data num_bcd16 ty = chunk_loop env ty area_ptr st"
proof -
  from assms obtain st0 where
    le: "loop_entry env sys start data num_bcd16 = Some (area_ptr, st0)"
    and pa: "passes env ty area_ptr k st0 = Some st"
    by (auto simp: pass_state_def split: option.splits)
  show ?thesis
    using process_data_loop [OF le] passes_loop [OF pa] by simp
qed

section \<open>Return codes of a pass\<close>

declare copy_name.simps [simp del]

lemma next_chunk_length_le_max:
  "next_chunk_length env t \<le> FINS_MAX_READ_WORDS_SYSWAY env"
  by (auto simp: next_chunk_length_def Let_def)

lemma next_chunk_length_le_todo: "next_chunk_length env t \<le> t"
  by (auto simp: next_chunk_length_def Let_def)

lemma next_chunk_length_pos:
  "0 < FINS_MAX_READ_WORDS_SYSWAY env \<Longrightarrow> 0 < t \<Longrightarrow> 0 < next_chunk_length env t"
  by (simp add: next_chunk_length_def Let_def)

lemma expected_length_no_wrap:
  fixes cl m :: size_t
  assumes "cl \<le> m" and "2 + 2 * unat m < 2 ^ 64"
  shows "unat (2 + 2 * cl) = 2 + 2 * unat cl"
proof -
  have "unat cl \<le> unat m"
    using assms(1) by (simp add: word_le_nat_alt)
  then have b: "2 + 2 * unat cl < 2 ^ 64"
    using assms(2) by simp
  have "unat (2 * cl) = 2 * unat cl"
    using b by (simp add: unat_mult_lem [THEN iffD1])
  moreover have "unat (2 + 2 * cl) = unat (2 :: size_t) + unat (2 * cl)"
    using b calculation by (simp add: unat_add_lem [THEN iffD1])
  ultimately show ?thesis by simp
qed

lemma chunk_loop_body_too_short:
  assumes ex: "exchange env area_ptr st = (FINS_RETVAL_SUCCESS, sys', reply, replylen)"
    and ne: "replylen \<noteq> 2 + 2 * next_chunk_length env (ls_todo st)"
  shows "chunk_loop env ty area_ptr st =
           Some (finish FINS_RETVAL_BODY_TOO_SHORT (logged env area_ptr st))"
proof -
  have "do_chunk env ty area_ptr st = Inl (FINS_RETVAL_BODY_TOO_SHORT, logged env area_ptr st)"
    using ne by (simp add: do_chunk_eq [OF ex])
  then show ?thesis by (rule chunk_loop_Inl)
qed

lemma chunk_loop_comm_failure:
  assumes ex: "exchange env area_ptr st = (rv, sys', reply, replylen)"
    and ne: "rv \<noteq> FINS_RETVAL_SUCCESS"
  shows "chunk_loop env ty area_ptr st = Some (finish rv (logged env area_ptr st))"
proof -
  have "do_chunk env ty area_ptr st = Inl (rv, logged env area_ptr st)"
    using ne by (simp add: do_chunk_eq [OF ex])
  then show ?thesis by (rule chunk_loop_Inl)
qed

lemma name_set_eq:
  assumes "sockfd s \<noteq> INVALID_SOCKET env"
    and "name_exchange env s nm = (rv, s', reply, replylen)"
  shows "finslib_name_set env (Some s) (Some nm) =
           \<lparr>n_retval = (if rv \<noteq> FINS_RETVAL_SUCCESS then rv
                        else if replylen \<noteq> 2 then FINS_RETVAL_BODY_TOO_SHORT
                        else FINS_RETVAL_SUCCESS),
            n_sys = Some s',
            n_log = [\<lparr>x_cmnd = fst (name_command env s nm),
                      x_bodylen = snd (name_command env s nm)\<rparr>]\<rparr>"
proof -
  obtain c0 s1 where ic: "XX_finslib_init_command env s 0x26 0x01 = (c0, s1)"
    by (rule prod.exhaust)
  obtain c1 bl where cn: "copy_name nm c0 0 = (c1, bl)"
    by (rule prod.exhaust)
  have co: "XX_finslib_communicate env s1 c1 bl True = (rv, s', reply, replylen)"
    using assms(2) by (simp add: name_exchange_def ic cn)
  show ?thesis
    using assms(1) by (simp add: finslib_name_set_def name_command_def Let_def ic cn co)
qed

lemma do_chunk_Inr:
  assumes "do_chunk env ty area_ptr st = Inr st'"
  obtains sys' reply fins_cmnd bodylen where
    "exchange env area_ptr st =
       (FINS_RETVAL_SUCCESS, sys', reply, 2 + 2 * next_chunk_length env (ls_todo st))"
    "ls_data st' = read_words (finslib_bcd_to_int env) ty (body reply)
                     (next_chunk_length env (ls_todo st)) (ls_offset st) 0 2 (ls_data st)"
    "ls_offset st' = ls_offset st + next_chunk_length env (ls_todo st)"
    "ls_todo st' = ls_todo st - next_chunk_length env (ls_todo st)"
    "ls_chunk_start st' = ls_chunk_start st + next_chunk_length env (ls_todo st)"
    "ls_log st' = ls_log st @
       [\<lparr>c_start = ls_chunk_start st, c_length = next_chunk_length env (ls_todo st),
         c_offset = ls_offset st, c_cmnd = fins_cmnd, c_bodylen = bodylen,
         c_retval = FINS_RETVAL_SUCCESS, c_reply = reply,
         c_replylen = 2 + 2 * next_chunk_length env (ls_todo st)\<rparr>]"
proof -
  obtain rv sys' reply replylen where
    ex: "exchange env area_ptr st = (rv, sys', reply, replylen)"
    by (rule prod_cases4)
  from assms have rv: "rv = FINS_RETVAL_SUCCESS"
    and len: "replylen = 2 + 2 * next_chunk_length env (ls_todo st)"
    and st': "st' = (logged env area_ptr st)
                 \<lparr>ls_data := read_words (finslib_bcd_to_int env) ty (body reply)
                      (next_chunk_length env (ls_todo st)) (ls_offset st) 0 2 (ls_data st),
                  ls_todo := ls_todo st - next_chunk_length env (ls_todo st),
                  ls_offset := ls_offset st + next_chunk_length env (ls_todo st),
                  ls_chunk_start := ls_chunk_start st + next_chunk_length env (ls_todo st)\<rparr>"
    by (simp_all add: do_chunk_eq [OF ex] split: if_splits)
  from logged_eq [OF ex] obtain fins_cmnd bodylen where
    lg: "logged env area_ptr st =
           st\<lparr>ls_sys := sys',
              ls_log := ls_log st @
                [\<lparr>c_start = ls_chunk_start st, c_length = next_chunk_length env (ls_todo st),
                  c_offset = ls_offset st, c_cmnd = fins_cmnd, c_bodylen = bodylen,
                  c_retval = rv, c_reply = reply, c_replylen = replylen\<rparr>]\<rparr>"
    by blast
  show thesis
  proof (rule that [of sys' reply fins_cmnd bodylen])
    show "exchange env area_ptr st =
       (FINS_RETVAL_SUCCESS, sys', reply, 2 + 2 * next_chunk_length env (ls_todo st))"
      using ex rv len by simp
  qed (simp_all add: st' lg rv len)
qed

lemma do_chunk_Inl:
  assumes "do_chunk env ty area_ptr st = Inl (rv, st')"
  obtains rv0 sys' reply replylen fins_cmnd bodylen where
    "exchange env area_ptr st = (rv0, sys', reply, replylen)"
    "rv = (if rv0 \<noteq> FINS_RETVAL_SUCCESS then rv0 else FINS_RETVAL_BODY_TOO_SHORT)"
    "rv0 = FINS_RETVAL_SUCCESS \<Longrightarrow> replylen \<noteq> 2 + 2 * next_chunk_length env (ls_todo st)"
    "st' = logged env area_ptr st"
    "ls_data st' = ls_data st"
    "ls_log st' = ls_log st @
       [\<lparr>c_start = ls_chunk_start st, c_length = next_chunk_length env (ls_todo st),
         c_offset = ls_offset st, c_cmnd = fins_cmnd, c_bodylen = bodylen,
         c_retval = rv0, c_reply = reply, c_replylen = replylen\<rparr>]"
proof -
  obtain rv0 sys' reply replylen where
    ex: "exchange env area_ptr st = (rv0, sys', reply, replylen)"
    by (rule prod_cases4)
  from assms have rv: "rv = (if rv0 \<noteq> FINS_RETVAL_SUCCESS then rv0 else FINS_RETVAL_BODY_TOO_SHORT)"
    and len: "rv0 = FINS_RETVAL_SUCCESS \<Longrightarrow> replylen \<noteq> 2 + 2 * next_chunk_length env (ls_todo st)"
    and st': "st' = logged env area_ptr st"
    by (simp_all add: do_chunk_eq [OF ex] split: if_splits)
  from logged_eq [OF ex] obtain fins_cmnd bodylen where
    lg: "logged env area_ptr st =
           st\<lparr>ls_sys := sys',
              ls_log := ls_log st @
                [\<lparr>c_start = ls_chunk_start st, c_length = next_chunk_length env (ls_todo st),
                  c_offset = ls_offset st, c_cmnd = fins_cmnd, c_bodylen = bodylen,
                  c_retval = rv0, c_reply = reply, c_replylen = replylen\<rparr>]\<rparr>"
    by blast
  show thesis
    by (rule that [of rv0 sys' reply replylen fins_cmnd bodylen])
       (simp_all add: ex rv len st' lg)
qed

section \<open>The loop invariant\<close>

lemma tiles_snoc:
  "tiles lo xs mid \<Longrightarrow> 0 < l \<Longrightarrow> tiles lo (xs @ [(mid, l)]) (mid + l)"
  by (induction lo xs mid rule: tiles.induct) auto

lemma tiles_sum: "tiles lo xs hi \<Longrightarrow> lo + sum_list (map snd xs) = hi"
  by (induction lo xs hi rule: tiles.induct) auto

lemma unat_add_below:
  fixes x y n :: size_t
  assumes "unat x + unat y \<le> unat n"
  shows "unat (x + y) = unat x + unat y"
proof -
  have "unat n < 2 ^ LENGTH(64)"
    by (rule unsigned_less)
  with assms have "unat x + unat y < 2 ^ LENGTH(64)"
    by simp
  then show ?thesis
    by (simp only: unat_add_lem [THEN iffD1])
qed

lemma unat_lt_mono: "(a :: size_t) < b \<Longrightarrow> unat a < unat b"
  by (simp add: word_less_nat_alt)

lemma unat_le_mono: "(a :: size_t) \<le> b \<Longrightarrow> unat a \<le> unat b"
  by (simp add: word_le_nat_alt)

lemma loop_inv_start:
  "loop_inv env ty n (ls_chunk_start (start_state s d n address area_ptr)) d
     (start_state s d n address area_ptr)"
  by (simp add: loop_inv_def start_state_def)

lemma loop_inv_step:
  assumes inv: "loop_inv env ty n base d st"
    and pos: "0 < FINS_MAX_READ_WORDS_SYSWAY env" "0 < ls_todo st"
    and dc: "do_chunk env ty area_ptr st = Inr st'"
  shows "loop_inv env ty n base d st'"
proof -
  let ?cl = "next_chunk_length env (ls_todo st)"
  let ?off = "ls_offset st"
  from dc obtain sys' reply fins_cmnd bodylen where
    data': "ls_data st' = read_words (finslib_bcd_to_int env) ty (body reply)
                     ?cl ?off 0 2 (ls_data st)"
    and off': "ls_offset st' = ?off + ?cl"
    and todo': "ls_todo st' = ls_todo st - ?cl"
    and cs': "ls_chunk_start st' = ls_chunk_start st + ?cl"
    and log': "ls_log st' = ls_log st @
       [\<lparr>c_start = ls_chunk_start st, c_length = ?cl,
         c_offset = ?off, c_cmnd = fins_cmnd, c_bodylen = bodylen,
         c_retval = FINS_RETVAL_SUCCESS, c_reply = reply,
         c_replylen = 2 + 2 * ?cl\<rparr>]"
    by (rule do_chunk_Inr)
  let ?new = "\<lparr>c_start = ls_chunk_start st, c_length = ?cl,
         c_offset = ?off, c_cmnd = fins_cmnd, c_bodylen = bodylen,
         c_retval = FINS_RETVAL_SUCCESS, c_reply = reply,
         c_replylen = 2 + 2 * ?cl\<rparr>"
  from inv have
    i1: "unat ?off + unat (ls_todo st) = unat n"
    and i2: "ls_chunk_start st = base + ?off"
    and i3: "tiles 0 (map span (ls_log st)) (unat ?off)"
    and i4: "\<And>c. c \<in> set (ls_log st) \<Longrightarrow>
         c_length c \<le> FINS_MAX_READ_WORDS_SYSWAY env \<and> c_start c = base + c_offset c
       \<and> c_retval c = FINS_RETVAL_SUCCESS \<and> c_replylen c = 2 + 2 * c_length c
       \<and> unat (c_offset c) + unat (c_length c) \<le> unat ?off"
    and i5: "\<And>c a. c \<in> set (ls_log st) \<Longrightarrow> a < c_length c \<Longrightarrow>
         ls_data st (unat (c_offset c) + unat a) =
           word_of_int (finslib_bcd_to_int env (wire_word (body (c_reply c)) a) ty)"
    and i6: "\<And>i. unat ?off \<le> i \<Longrightarrow> ls_data st i = d i"
    and i7: "ls_log st \<noteq> [] \<Longrightarrow> c_length (hd (ls_log st)) = next_chunk_length env n"
    by (simp_all add: loop_inv_def)
  have cl_todo: "?cl \<le> ls_todo st"
    by (rule next_chunk_length_le_todo)
  have cl_max: "?cl \<le> FINS_MAX_READ_WORDS_SYSWAY env"
    by (rule next_chunk_length_le_max)
  have cl_pos: "0 < unat ?cl"
    using next_chunk_length_pos [OF pos] by (simp add: word_less_nat_alt)
  have ucl: "unat ?cl \<le> unat (ls_todo st)"
    using cl_todo by (rule unat_le_mono)
  have uoff': "unat (?off + ?cl) = unat ?off + unat ?cl"
    using ucl i1 by (intro unat_add_below [where n = n]) simp
  have utodo': "unat (ls_todo st - ?cl) = unat (ls_todo st) - unat ?cl"
    using cl_todo by (rule unat_sub)
  have idx: "unat (?off + a) = unat ?off + unat a" if "a < ?cl" for a
  proof -
    have "unat a < unat ?cl" using that by (rule unat_lt_mono)
    then show ?thesis
      using ucl i1 by (intro unat_add_below [where n = n]) simp
  qed
  have c1: "unat (ls_offset st') + unat (ls_todo st') = unat n"
    using i1 ucl by (simp add: off' todo' uoff' utodo')
  have c2: "ls_chunk_start st' = base + ls_offset st'"
    by (simp add: cs' off' i2)
  have c3: "tiles 0 (map span (ls_log st')) (unat (ls_offset st'))"
    using tiles_snoc [OF i3 cl_pos] by (simp add: log' off' uoff' span_def)
  have c4: "c_length c \<le> FINS_MAX_READ_WORDS_SYSWAY env \<and> c_start c = base + c_offset c
       \<and> c_retval c = FINS_RETVAL_SUCCESS \<and> c_replylen c = 2 + 2 * c_length c
       \<and> unat (c_offset c) + unat (c_length c) \<le> unat (ls_offset st')"
    if "c \<in> set (ls_log st')" for c
  proof (cases "c = ?new")
    case True
    then show ?thesis
      using cl_max by (simp add: i2 off' uoff')
  next
    case False
    with that have "c \<in> set (ls_log st)" by (simp add: log')
    from i4 [OF this] show ?thesis by (simp add: off' uoff')
  qed
  have frame: "ls_data st' i = ls_data st i" if "i < unat ?off \<or> unat ?off + unat ?cl \<le> i" for i
  proof -
    have "i \<noteq> unat (?off + a)" if "a < ?cl" for a
    proof -
      have "unat a < unat ?cl" using that by (rule unat_lt_mono)
      then have "unat ?off \<le> unat (?off + a)" "unat (?off + a) < unat ?off + unat ?cl"
        by (simp_all add: idx [OF that])
      then show ?thesis using \<open>i < unat ?off \<or> unat ?off + unat ?cl \<le> i\<close> by arith
    qed
    then show ?thesis
      by (simp add: data' read_words_frame)
  qed
  have c5: "ls_data st' (unat (c_offset c) + unat a) =
           word_of_int (finslib_bcd_to_int env (wire_word (body (c_reply c)) a) ty)"
    if "c \<in> set (ls_log st')" and "a < c_length c" for c a
  proof (cases "c = ?new")
    case True
    then have a: "a < ?cl" using that(2) by simp
    have "ls_data st' (unat (?off + a)) =
            word_of_int (finslib_bcd_to_int env (wire_word (body reply) a) ty)"
      unfolding data' using _ a by (rule read_words_at) simp_all
    then show ?thesis
      using True by (simp add: idx [OF a])
  next
    case False
    with that have old: "c \<in> set (ls_log st)" by (simp add: log')
    have "unat a < unat (c_length c)" using that(2) by (rule unat_lt_mono)
    then have "unat (c_offset c) + unat a < unat ?off"
      using i4 [OF old] by simp
    then have "ls_data st' (unat (c_offset c) + unat a) = ls_data st (unat (c_offset c) + unat a)"
      by (intro frame) simp
    then show ?thesis
      using i5 [OF old that(2)] by simp
  qed
  have c6: "ls_data st' i = d i" if "unat (ls_offset st') \<le> i" for i
  proof -
    from that have "unat ?off + unat ?cl \<le> i" by (simp add: off' uoff')
    then have "ls_data st' i = ls_data st i" "unat ?off \<le> i"
      by (simp_all add: frame)
    then show ?thesis by (simp add: i6)
  qed
  have c7: "c_length (hd (ls_log st')) = next_chunk_length env n"
  proof (cases "ls_log st = []")
    case True
    with i3 have "unat ?off = 0" by simp
    with i1 have "unat (ls_todo st) = unat n" by simp
    then have "ls_todo st = n" by (simp add: word_unat_eq_iff)
    with True show ?thesis by (simp add: log')
  next
    case False
    with i7 show ?thesis by (simp add: log')
  qed
  show ?thesis
    unfolding loop_inv_def using c1 c2 c3 c4 c5 c6 c7 by blast
qed

section \<open>The loop returns\<close>

lemma passes_Suc_start:
  "do_chunk env ty area_ptr st = Inr st' \<Longrightarrow> 0 < ls_todo st' \<Longrightarrow>
   passes env ty area_ptr (Suc k) st = passes env ty area_ptr k st'"
  by simp

lemma passes_inv:
  assumes "0 < FINS_MAX_READ_WORDS_SYSWAY env"
  shows "loop_inv env ty n base d st0 \<Longrightarrow> 0 < ls_todo st0 \<Longrightarrow>
         passes env ty area_ptr k st0 = Some st \<Longrightarrow>
         loop_inv env ty n base d st \<and> 0 < ls_todo st"
proof (induction k arbitrary: st0)
  case 0
  then show ?case by simp
next
  case (Suc k)
  from Suc.prems(3) obtain st' where
    dc: "do_chunk env ty area_ptr st0 = Inr st'" and more: "0 < ls_todo st'"
    and rest: "passes env ty area_ptr k st' = Some st"
    by (auto split: sum.splits if_splits)
  have "loop_inv env ty n base d st'"
    using Suc.prems(1) assms Suc.prems(2) dc by (rule loop_inv_step)
  then show ?case
    using more rest by (rule Suc.IH)
qed

lemma passes_log_length:
  "passes env ty area_ptr k st0 = Some st \<Longrightarrow> length (ls_log st) = length (ls_log st0) + k"
proof (induction k arbitrary: st0)
  case 0
  then show ?case by simp
next
  case (Suc k)
  from Suc.prems obtain st' where
    dc: "do_chunk env ty area_ptr st0 = Inr st'"
    and rest: "passes env ty area_ptr k st' = Some st"
    by (auto split: sum.splits if_splits)
  from dc have "length (ls_log st') = Suc (length (ls_log st0))"
    by (rule do_chunk_Inr) simp
  with Suc.IH [OF rest] show ?case by simp
qed

lemma chunk_loop_cases:
  assumes m: "0 < FINS_MAX_READ_WORDS_SYSWAY env"
  shows "0 < ls_todo st \<Longrightarrow>
    \<exists>k st_k.
       passes env ty area_ptr k st = Some st_k \<and>
       ((\<exists>rv st'. do_chunk env ty area_ptr st_k = Inl (rv, st') \<and>
                  chunk_loop env ty area_ptr st = Some (finish rv st')) \<or>
        (\<exists>st'. do_chunk env ty area_ptr st_k = Inr st' \<and> ls_todo st' = 0 \<and>
               chunk_loop env ty area_ptr st = Some (finish FINS_RETVAL_SUCCESS st')))"
proof (induction "unat (ls_todo st)" arbitrary: st rule: less_induct)
  case less
  show ?case
  proof (cases "do_chunk env ty area_ptr st")
    case (Inl failure)
    obtain rv st' where f: "failure = (rv, st')" by (rule prod.exhaust)
    have "chunk_loop env ty area_ptr st = Some (finish rv st')"
      using Inl unfolding f by (rule chunk_loop_Inl)
    moreover have "passes env ty area_ptr 0 st = Some st" by simp
    ultimately show ?thesis
      using Inl f by blast
  next
    case (Inr st')
    show ?thesis
    proof (cases "0 < ls_todo st'")
      case False
      then have z: "ls_todo st' = 0" by (simp add: word_greater_zero_iff)
      have "chunk_loop env ty area_ptr st = Some (finish FINS_RETVAL_SUCCESS st')"
        using Inr False by (rule chunk_loop_Inr_done)
      moreover have "passes env ty area_ptr 0 st = Some st" by simp
      ultimately show ?thesis
        using Inr z by blast
    next
      case True
      let ?cl = "next_chunk_length env (ls_todo st)"
      from Inr have todo': "ls_todo st' = ls_todo st - ?cl"
        by (rule do_chunk_Inr)
      have "0 < unat ?cl"
        using next_chunk_length_pos [OF m less.prems] by (simp add: word_less_nat_alt)
      moreover have "unat ?cl \<le> unat (ls_todo st)"
        using next_chunk_length_le_todo by (rule unat_le_mono)
      moreover have "unat (ls_todo st') = unat (ls_todo st) - unat ?cl"
        unfolding todo' using next_chunk_length_le_todo by (rule unat_sub)
      ultimately have "unat (ls_todo st') < unat (ls_todo st)"
        by simp
      from less.hyps [OF this True] obtain k st_k where
        pa: "passes env ty area_ptr k st' = Some st_k"
        and res: "(\<exists>rv st''. do_chunk env ty area_ptr st_k = Inl (rv, st'') \<and>
                  chunk_loop env ty area_ptr st' = Some (finish rv st'')) \<or>
        (\<exists>st''. do_chunk env ty area_ptr st_k = Inr st'' \<and> ls_todo st'' = 0 \<and>
               chunk_loop env ty area_ptr st' = Some (finish FINS_RETVAL_SUCCESS st''))"
        by blast
      have "passes env ty area_ptr (Suc k) st = Some st_k"
        using pa Inr True by simp
      moreover have "chunk_loop env ty area_ptr st = chunk_loop env ty area_ptr st'"
        using Inr True by (rule chunk_loop_Inr_more)
      ultimately show ?thesis
        using res by metis
    qed
  qed
qed

section \<open>The result of a whole read\<close>

lemma pass_stateD:
  assumes "pass_state env sys start data num_bcd16 ty k = Some (area_ptr, st)"
  obtains st0 where
    "loop_entry env sys start data num_bcd16 = Some (area_ptr, st0)"
    "passes env ty area_ptr k st0 = Some st"
  using assms by (auto simp: pass_state_def split: option.splits)

lemma pass_stateI:
  "loop_entry env sys start data num_bcd16 = Some (area_ptr, st0) \<Longrightarrow>
   passes env ty area_ptr k st0 = Some st \<Longrightarrow>
   pass_state env sys start data num_bcd16 ty k = Some (area_ptr, st)"
  by (simp add: pass_state_def)

lemma loop_entry_inv:
  assumes "loop_entry env sys start (Some d) num_bcd16 = Some (area_ptr, st0)"
  shows "loop_inv env ty num_bcd16 (ls_chunk_start st0) d st0" and "0 < ls_todo st0"
    and "ls_log st0 = []" and "ls_offset st0 = 0"
proof -
  from assms obtain s addr_text d' address where
    "Some d = Some d'" "num_bcd16 \<noteq> 0"
    "st0 = start_state s d' num_bcd16 address area_ptr"
    by (rule loop_entry_SomeD)
  then have st0: "st0 = start_state s d num_bcd16 address area_ptr" and n: "num_bcd16 \<noteq> 0"
    by simp_all
  show "loop_inv env ty num_bcd16 (ls_chunk_start st0) d st0"
    unfolding st0 by (rule loop_inv_start)
  show "0 < ls_todo st0"
    using n by (simp add: st0 start_state_def word_greater_zero_iff)
  show "ls_log st0 = []" "ls_offset st0 = 0"
    by (simp_all add: st0 start_state_def)
qed

lemma pass_state_inv:
  assumes m: "0 < FINS_MAX_READ_WORDS_SYSWAY env"
    and ps: "pass_state env sys start (Some d) num_bcd16 ty k = Some (area_ptr, st)"
  obtains st0 where
    "loop_entry env sys start (Some d) num_bcd16 = Some (area_ptr, st0)"
    "loop_inv env ty num_bcd16 (ls_chunk_start st0) d st" "0 < ls_todo st"
    "length (ls_log st) = k"
proof -
  from ps obtain st0 where
    le: "loop_entry env sys start (Some d) num_bcd16 = Some (area_ptr, st0)"
    and pa: "passes env ty area_ptr k st0 = Some st"
    by (rule pass_stateD)
  have "loop_inv env ty num_bcd16 (ls_chunk_start st0) d st \<and> 0 < ls_todo st"
    using m loop_entry_inv(1,2) [OF le] pa by (rule passes_inv)
  moreover have "length (ls_log st) = k"
    using passes_log_length [OF pa] loop_entry_inv(3) [OF le] by simp
  ultimately show thesis
    using le by (intro that [of st0]) simp_all
qed

lemma read_result_cases:
  assumes m: "0 < FINS_MAX_READ_WORDS_SYSWAY env"
    and le: "loop_entry env sys start (Some d) num_bcd16 = Some (area_ptr, st0)"
  obtains (failed) k st rv st' where
      "pass_state env sys start (Some d) num_bcd16 ty k = Some (area_ptr, st)"
      "do_chunk env ty area_ptr st = Inl (rv, st')"
      "process_data env sys start (Some d) num_bcd16 ty = Some (finish rv st')"
  | (complete) k st st' where
      "pass_state env sys start (Some d) num_bcd16 ty k = Some (area_ptr, st)"
      "do_chunk env ty area_ptr st = Inr st'" "ls_todo st' = 0"
      "process_data env sys start (Some d) num_bcd16 ty = Some (finish FINS_RETVAL_SUCCESS st')"
proof -
  have pd: "process_data env sys start (Some d) num_bcd16 ty = chunk_loop env ty area_ptr st0"
    using le by (rule process_data_loop)
  from chunk_loop_cases [OF m loop_entry_inv(2) [OF le], of ty area_ptr]
  obtain k st where pa: "passes env ty area_ptr k st0 = Some st"
    and res: "(\<exists>rv st'. do_chunk env ty area_ptr st = Inl (rv, st') \<and>
                  chunk_loop env ty area_ptr st0 = Some (finish rv st')) \<or>
        (\<exists>st'. do_chunk env ty area_ptr st = Inr st' \<and> ls_todo st' = 0 \<and>
               chunk_loop env ty area_ptr st0 = Some (finish FINS_RETVAL_SUCCESS st'))"
    by blast
  have ps: "pass_state env sys start (Some d) num_bcd16 ty k = Some (area_ptr, st)"
    using le pa by (rule pass_stateI)
  from res show thesis
  proof
    assume "\<exists>rv st'. do_chunk env ty area_ptr st = Inl (rv, st') \<and>
                  chunk_loop env ty area_ptr st0 = Some (finish rv st')"
    then obtain rv st' where "do_chunk env ty area_ptr st = Inl (rv, st')"
      "chunk_loop env ty area_ptr st0 = Some (finish rv st')" by blast
    with ps show thesis by (intro failed [of k st rv st']) (simp_all add: pd)
  next
    assume "\<exists>st'. do_chunk env ty area_ptr st = Inr st' \<and> ls_todo st' = 0 \<and>
               chunk_loop env ty area_ptr st0 = Some (finish FINS_RETVAL_SUCCESS st')"
    then obtain st' where "do_chunk env ty area_ptr st = Inr st'" "ls_todo st' = 0"
      "chunk_loop env ty area_ptr st0 = Some (finish FINS_RETVAL_SUCCESS st')" by blast
    with ps show thesis by (intro complete [of k st st']) (simp_all add: pd)
  qed
qed

lemma tiles_consecutive:
  "tiles lo xs hi \<Longrightarrow> Suc i < length xs \<Longrightarrow> fst (xs ! Suc i) = fst (xs ! i) + snd (xs ! i)"
proof (induction lo xs hi arbitrary: i rule: tiles.induct)
  case (1 lo hi)
  then show ?case by simp
next
  case (2 lo p l cs hi)
  show ?case
  proof (cases i)
    case 0
    with "2.prems" obtain q k cs' where cs: "cs = (q, k) # cs'"
      by (cases cs) auto
    with "2.prems"(1) 0 show ?thesis by simp
  next
    case (Suc j)
    with "2.prems" have "tiles (lo + l) cs hi" "Suc j < length cs" by simp_all
    then have "fst (cs ! Suc j) = fst (cs ! j) + snd (cs ! j)" by (rule "2.IH")
    with Suc show ?thesis by simp
  qed
qed

lemma word_eq_of_unat_sum:
  fixes x y z :: size_t
  assumes "unat x = unat y + unat z"
  shows "x = y + z"
proof -
  have "x = word_of_nat (unat x)" by simp
  also have "\<dots> = word_of_nat (unat y + unat z)" by (simp only: assms)
  also have "\<dots> = y + z" by simp
  finally show ?thesis .
qed

lemma log_consecutive:
  assumes t: "tiles lo (map span cs) hi"
    and b: "\<And>c. c \<in> set cs \<Longrightarrow> c_start c = base + c_offset c"
    and i: "Suc i < length cs"
  shows "c_offset (cs ! Suc i) = c_offset (cs ! i) + c_length (cs ! i)"
    and "c_start (cs ! Suc i) = c_start (cs ! i) + c_length (cs ! i)"
proof -
  have "fst (map span cs ! Suc i) = fst (map span cs ! i) + snd (map span cs ! i)"
    using t i by (intro tiles_consecutive) simp_all
  then have "unat (c_offset (cs ! Suc i)) = unat (c_offset (cs ! i)) + unat (c_length (cs ! i))"
    using i by (simp add: span_def)
  then show o: "c_offset (cs ! Suc i) = c_offset (cs ! i) + c_length (cs ! i)"
    by (rule word_eq_of_unat_sum)
  have "c_start (cs ! Suc i) = base + c_offset (cs ! Suc i)"
    "c_start (cs ! i) = base + c_offset (cs ! i)"
    using i by (simp_all add: b)
  then show "c_start (cs ! Suc i) = c_start (cs ! i) + c_length (cs ! i)"
    by (simp add: o)
qed

lemma tiles_lengths: "tiles 0 (map span cs) hi \<Longrightarrow> sum_list (map (unat \<circ> c_length) cs) = hi"
proof -
  assume "tiles 0 (map span cs) hi"
  then have "0 + sum_list (map snd (map span cs)) = hi" by (rule tiles_sum)
  moreover have "snd \<circ> span = unat \<circ> c_length"
    by (rule ext) (simp add: span_def)
  ultimately show ?thesis by simp
qed

lemma failed_pass:
  assumes inv: "loop_inv env ty n base d st"
    and pos: "0 < FINS_MAX_READ_WORDS_SYSWAY env" "0 < ls_todo st"
    and dc: "do_chunk env ty area_ptr st = Inl (rv, st')"
  shows "\<exists>hi. tiles 0 (map span (ls_log st')) hi \<and> hi \<le> unat n"
    and "\<And>c. c \<in> set (ls_log st') \<Longrightarrow>
           c_length c \<le> FINS_MAX_READ_WORDS_SYSWAY env \<and> c_start c = base + c_offset c"
    and "ls_data st' = ls_data st"
    and "rv \<noteq> FINS_RETVAL_SUCCESS"
    and "length (ls_log st') = Suc (length (ls_log st))"
    and "take (length (ls_log st)) (ls_log st') = ls_log st"
    and "c_length (hd (ls_log st')) = next_chunk_length env n"
proof -
  let ?cl = "next_chunk_length env (ls_todo st)"
  from dc obtain rv0 sys' reply replylen fins_cmnd bodylen where
    rv: "rv = (if rv0 \<noteq> FINS_RETVAL_SUCCESS then rv0 else FINS_RETVAL_BODY_TOO_SHORT)"
    and data': "ls_data st' = ls_data st"
    and log': "ls_log st' = ls_log st @
       [\<lparr>c_start = ls_chunk_start st, c_length = ?cl,
         c_offset = ls_offset st, c_cmnd = fins_cmnd, c_bodylen = bodylen,
         c_retval = rv0, c_reply = reply, c_replylen = replylen\<rparr>]"
    by (rule do_chunk_Inl)
  from inv have
    i1: "unat (ls_offset st) + unat (ls_todo st) = unat n"
    and i2: "ls_chunk_start st = base + ls_offset st"
    and i3: "tiles 0 (map span (ls_log st)) (unat (ls_offset st))"
    and i4: "\<And>c. c \<in> set (ls_log st) \<Longrightarrow>
         c_length c \<le> FINS_MAX_READ_WORDS_SYSWAY env \<and> c_start c = base + c_offset c"
    and i7: "ls_log st \<noteq> [] \<Longrightarrow> c_length (hd (ls_log st)) = next_chunk_length env n"
    by (simp_all add: loop_inv_def)
  have cl_pos: "0 < unat ?cl"
    using next_chunk_length_pos [OF pos] by (simp add: word_less_nat_alt)
  have ucl: "unat ?cl \<le> unat (ls_todo st)"
    using next_chunk_length_le_todo by (rule unat_le_mono)
  have "tiles 0 (map span (ls_log st')) (unat (ls_offset st) + unat ?cl)"
    using tiles_snoc [OF i3 cl_pos] by (simp add: log' span_def)
  moreover have "unat (ls_offset st) + unat ?cl \<le> unat n"
    using ucl i1 by simp
  ultimately show "\<exists>hi. tiles 0 (map span (ls_log st')) hi \<and> hi \<le> unat n"
    by blast
  show "c_length c \<le> FINS_MAX_READ_WORDS_SYSWAY env \<and> c_start c = base + c_offset c"
    if "c \<in> set (ls_log st')" for c
    using that i4 [of c] i2 next_chunk_length_le_max [of env "ls_todo st"]
    by (auto simp: log')
  show "ls_data st' = ls_data st" by (rule data')
  show "rv \<noteq> FINS_RETVAL_SUCCESS" by (simp add: rv)
  show "length (ls_log st') = Suc (length (ls_log st))" by (simp add: log')
  show "take (length (ls_log st)) (ls_log st') = ls_log st" by (simp add: log')
  show "c_length (hd (ls_log st')) = next_chunk_length env n"
  proof (cases "ls_log st = []")
    case True
    with i3 have "unat (ls_offset st) = 0" by simp
    with i1 have "unat (ls_todo st) = unat n" by simp
    then have "ls_todo st = n" by (simp add: word_unat_eq_iff)
    with True show ?thesis by (simp add: log')
  next
    case False
    with i7 show ?thesis by (simp add: log')
  qed
qed

lemma loop_entry_None:
  assumes "loop_entry env sys start data num_bcd16 = None"
  shows "\<exists>rv. process_data env sys start data num_bcd16 ty = Some (early rv sys data)"
proof (cases "num_bcd16 = 0")
  case True
  then show ?thesis by (auto simp: process_data_def)
next
  case n: False
  show ?thesis
  proof (cases sys)
    case None
    with n show ?thesis by (auto simp: process_data_def)
  next
    case s: (Some s)
    show ?thesis
    proof (cases start)
      case None
      with n s show ?thesis by (auto simp: process_data_def)
    next
      case a: (Some addr_text)
      show ?thesis
      proof (cases data)
        case None
        with n s a show ?thesis by (auto simp: process_data_def)
      next
        case d: (Some d)
        show ?thesis
        proof (cases "sockfd s = INVALID_SOCKET env")
          case True
          with n s a d show ?thesis by (auto simp: process_data_def)
        next
          case c: False
          show ?thesis
          proof (cases "XX_finslib_decode_address env addr_text")
            case None
            with n s a d c show ?thesis by (auto simp: process_data_def)
          next
            case ad: (Some address)
            with assms n s a d c
            have "XX_finslib_search_area env s address 16 (FI_RD env) False = None"
              by (simp add: loop_entry_def split: option.splits)
            with n s a d c ad show ?thesis by (auto simp: process_data_def)
          qed
        qed
      qed
    qed
  qed
qed

lemma failing_pass_result:
  assumes ps: "pass_state env sys start data num_bcd16 ty k = Some (area_ptr, st)"
    and ex: "exchange env area_ptr st = (rv, sys', reply, replylen)"
    and bad: "rv \<noteq> FINS_RETVAL_SUCCESS \<or> replylen \<noteq> 2 + 2 * next_chunk_length env (ls_todo st)"
  shows "process_data env sys start data num_bcd16 ty =
           Some (finish (if rv \<noteq> FINS_RETVAL_SUCCESS then rv else FINS_RETVAL_BODY_TOO_SHORT)
                   (logged env area_ptr st))"
proof -
  have "process_data env sys start data num_bcd16 ty = chunk_loop env ty area_ptr st"
    using ps by (rule process_data_pass)
  also have "\<dots> = Some (finish (if rv \<noteq> FINS_RETVAL_SUCCESS then rv else FINS_RETVAL_BODY_TOO_SHORT)
                   (logged env area_ptr st))"
  proof (cases "rv = FINS_RETVAL_SUCCESS")
    case True
    with ex bad show ?thesis by (simp add: chunk_loop_body_too_short)
  next
    case False
    with ex show ?thesis by (simp add: chunk_loop_comm_failure)
  qed
  finally show ?thesis .
qed

lemma logged_log:
  "take (length (ls_log st)) (ls_log (logged env area_ptr st)) = ls_log st"
proof -
  obtain rv sys' reply replylen where "exchange env area_ptr st = (rv, sys', reply, replylen)"
    by (rule prod_cases4)
  from logged_eq [OF this] show ?thesis by auto
qed

lemma logged_data: "ls_data (logged env area_ptr st) = ls_data st"
proof -
  obtain rv sys' reply replylen where "exchange env area_ptr st = (rv, sys', reply, replylen)"
    by (rule prod_cases4)
  from logged_eq [OF this] show ?thesis by auto
qed

lemma logged_log_length: "length (ls_log (logged env area_ptr st)) = Suc (length (ls_log st))"
proof -
  obtain rv sys' reply replylen where "exchange env area_ptr st = (rv, sys', reply, replylen)"
    by (rule prod_cases4)
  from logged_eq [OF this] show ?thesis by auto
qed

section \<open>The name that is sent\<close>

lemma char_at_strlen:
  assumes "i \<le> strlen nm"
  shows "char_at nm i \<noteq> CHR 0x00 \<longleftrightarrow> i < strlen nm"
proof (cases "i < strlen nm")
  case True
  then have "takeWhile (\<lambda>ch. ch \<noteq> CHR 0x00) nm ! i \<in> set (takeWhile (\<lambda>ch. ch \<noteq> CHR 0x00) nm)"
    unfolding strlen_def by (rule nth_mem)
  then have "takeWhile (\<lambda>ch. ch \<noteq> CHR 0x00) nm ! i \<noteq> CHR 0x00"
    by (auto dest: set_takeWhileD)
  moreover have "takeWhile (\<lambda>ch. ch \<noteq> CHR 0x00) nm ! i = nm ! i"
    using True unfolding strlen_def by (rule takeWhile_nth)
  moreover have "i < length nm"
    using True length_takeWhile_le [of "\<lambda>ch. ch \<noteq> CHR 0x00" nm] by (simp add: strlen_def)
  ultimately show ?thesis
    using True by (simp add: char_at_def)
next
  case False
  with assms have i: "i = strlen nm" by simp
  have "char_at nm i = CHR 0x00"
  proof (cases "i < length nm")
    case True
    then have "\<not> nm ! i \<noteq> CHR 0x00"
      unfolding i strlen_def by (rule nth_length_takeWhile)
    with True show ?thesis by (simp add: char_at_def)
  next
    case False
    then show ?thesis by (simp add: char_at_def)
  qed
  with False show ?thesis by simp
qed

lemma copy_name_stop:
  "\<not> (bodylen < 8 \<and> char_at name (unat bodylen) \<noteq> CHR 0x00) \<Longrightarrow>
   copy_name name fins_cmnd bodylen = (fins_cmnd, bodylen)"
  by (subst copy_name.simps) (simp only: if_False)

lemma copy_name_step:
  "bodylen < 8 \<and> char_at name (unat bodylen) \<noteq> CHR 0x00 \<Longrightarrow>
   copy_name name fins_cmnd bodylen =
     copy_name name
       (fins_cmnd\<lparr>body := (body fins_cmnd)(unat bodylen := of_char (char_at name (unat bodylen)))\<rparr>)
       (bodylen + 1)"
  by (subst copy_name.simps) (simp only: simp_thms if_True)

lemma copy_name_result:
  "unat b \<le> 8 \<Longrightarrow> unat b \<le> strlen nm \<Longrightarrow> copy_name nm c b = (c', bl) \<Longrightarrow>
   unat bl = min 8 (strlen nm)
   \<and> (\<forall>i. body c' i = (if unat b \<le> i \<and> i < unat bl then of_char (nm ! i) else body c i))"
proof (induction nm c b rule: copy_name.induct)
  case (1 name fins_cmnd bodylen)
  show ?case
  proof (cases "bodylen < 8 \<and> char_at name (unat bodylen) \<noteq> CHR 0x00")
    case True
    then have lt8: "bodylen < 8" and ch: "char_at name (unat bodylen) \<noteq> CHR 0x00"
      by simp_all
    have lt: "unat bodylen < strlen name"
      using ch char_at_strlen [OF "1.prems"(2)] by simp
    have suc: "unat (bodylen + 1) = Suc (unat bodylen)"
      using lt8 by (rule unat_succ_below)
    have u8: "unat bodylen < 8"
      using lt8 by (simp add: word_less_nat_alt)
    let ?c = "fins_cmnd\<lparr>body := (body fins_cmnd)(unat bodylen := of_char (char_at name (unat bodylen)))\<rparr>"
    have rec: "copy_name name ?c (bodylen + 1) = (c', bl)"
      using "1.prems"(3) by (simp only: copy_name_step [OF True])
    have ih: "unat bl = min 8 (strlen name)
      \<and> (\<forall>i. body c' i = (if unat (bodylen + 1) \<le> i \<and> i < unat bl then of_char (name ! i)
                           else body ?c i))"
      using True _ _ rec
    proof (rule "1.IH")
      show "unat (bodylen + 1) \<le> 8" using u8 by (simp add: suc)
      show "unat (bodylen + 1) \<le> strlen name" using lt by (simp add: suc)
    qed
    have here: "char_at name (unat bodylen) = name ! unat bodylen"
      using ch by (simp add: char_at_def split: if_splits)
    have inside: "unat bodylen < unat bl"
      using ih lt u8 by simp
    show ?thesis
    proof (intro conjI allI)
      show "unat bl = min 8 (strlen name)" using ih by simp
      fix i
      show "body c' i = (if unat bodylen \<le> i \<and> i < unat bl then of_char (name ! i)
                         else body fins_cmnd i)"
        using ih inside here by (cases "i = unat bodylen") (auto simp: suc)
    qed
  next
    case False
    then have "copy_name name fins_cmnd bodylen = (fins_cmnd, bodylen)"
      by (rule copy_name_stop)
    with "1.prems"(3) have stop: "(c', bl) = (fins_cmnd, bodylen)"
      by simp
    have "unat bodylen = min 8 (strlen name)"
    proof (cases "bodylen < 8")
      case True
      with False have "char_at name (unat bodylen) = CHR 0x00" by simp
      then have "\<not> unat bodylen < strlen name"
        using char_at_strlen [OF "1.prems"(2)] by simp
      with "1.prems"(1,2) show ?thesis by simp
    next
      case False
      then have "8 \<le> unat bodylen"
        by (simp add: word_less_nat_alt)
      with "1.prems"(1,2) show ?thesis by simp
    qed
    with stop show ?thesis by auto
  qed
qed

lemma name_command_bytes:
  "sent_bytes \<lparr>x_cmnd = fst (name_command env s nm), x_bodylen = snd (name_command env s nm)\<rparr> =
     map of_char (take 8 (takeWhile (\<lambda>ch. ch \<noteq> CHR 0x00) nm))"
proof -
  obtain c0 s1 where ic: "XX_finslib_init_command env s 0x26 0x01 = (c0, s1)"
    by (rule prod.exhaust)
  obtain c' bl where cn: "copy_name nm c0 0 = (c', bl)"
    by (rule prod.exhaust)
  have nc: "name_command env s nm = (c', bl)"
    by (simp add: name_command_def ic cn)
  have "unat (0 :: size_t) \<le> 8" "unat (0 :: size_t) \<le> strlen nm" by simp_all
  from copy_name_result [OF this cn] have
    len: "unat bl = min 8 (strlen nm)"
    and bytes: "\<And>i. i < unat bl \<Longrightarrow> body c' i = of_char (nm ! i)"
    by simp_all
  let ?tw = "takeWhile (\<lambda>ch. ch \<noteq> CHR 0x00) nm"
  have "map (body c') [0..<unat bl] = map of_char (take 8 ?tw)"
  proof (rule nth_equalityI)
    show "length (map (body c') [0..<unat bl]) = length (map of_char (take 8 ?tw) :: byte list)"
      by (simp add: len strlen_def min.commute)
  next
    fix i assume "i < length (map (body c') [0..<unat bl])"
    then have i: "i < unat bl" by simp
    then have i8: "i < 8" and itw: "i < length ?tw"
      by (simp_all add: len strlen_def)
    have "take 8 ?tw ! i = ?tw ! i" using i8 by simp
    also have "\<dots> = nm ! i" using itw by (rule takeWhile_nth)
    finally have "map of_char (take 8 ?tw) ! i = (of_char (nm ! i) :: byte)"
      using i8 itw by simp
    with i show "map (body c') [0..<unat bl] ! i = (map of_char (take 8 ?tw) :: byte list) ! i"
      by (simp add: bytes)
  qed
  then show ?thesis
    by (simp add: sent_bytes_def nc)
qed

section \<open>Nibbles and digits\<close>

lemma upt4: "[0..<4] = [0, 1, 2, 3]"
  by (simp add: upt_rec)

lemma bcd_nibble_unat: "bcd_nibble w k = unat w div 16 ^ k mod 16"
proof -
  have "drop_bit (4 * k) w AND 0xF = take_bit 4 (drop_bit (4 * k) w)"
    by (simp add: take_bit_eq_mask mask_eq_exp_minus_1)
  then have "bcd_nibble w k = take_bit 4 (drop_bit (4 * k) (unat w))"
    by (simp add: bcd_nibble_def unsigned_take_bit_eq unat_drop_bit_eq)
  also have "\<dots> = unat w div 2 ^ (4 * k) mod 2 ^ 4"
    by (simp add: take_bit_eq_mod drop_bit_eq_div)
  also have "(2::nat) ^ (4 * k) = 16 ^ k"
    by (simp add: power_mult)
  finally show ?thesis by simp
qed

lemma split16: "(n :: nat) = n mod 16 + 16 * (n div 16)"
  by simp

lemma nibbles_of_nat:
  fixes n :: nat
  assumes "n < 65536"
  shows "n = n mod 16 + 16 * (n div 16 mod 16) + 256 * (n div 256 mod 16) + 4096 * (n div 4096 mod 16)"
proof -
  define q1 where "q1 = n div 16"
  define q2 where "q2 = q1 div 16"
  define q3 where "q3 = q2 div 16"
  have d2: "n div 256 = q2"
    unfolding q2_def q1_def by (simp add: div_mult2_eq [symmetric])
  have d3: "n div 4096 = q3"
    unfolding q3_def q2_def q1_def by (simp add: div_mult2_eq [symmetric])
  have "q3 < 16"
    using assms unfolding d3 [symmetric] by simp
  then have m3: "q3 mod 16 = q3" by simp
  have "n = n mod 16 + 16 * q1"
    unfolding q1_def by (rule split16)
  also have "q1 = q1 mod 16 + 16 * q2"
    unfolding q2_def by (rule split16)
  also have "q2 = q2 mod 16 + 16 * q3"
    unfolding q3_def by (rule split16)
  finally have "n = n mod 16 + 16 * (q1 mod 16) + 256 * (q2 mod 16) + 4096 * q3"
    by simp
  then show ?thesis
    unfolding d2 d3 m3 unfolding q1_def .
qed

lemma digit_split:
  fixes a y :: nat
  assumes "a \<le> 9"
  shows "(a + 10 * y) mod 10 = a" and "(a + 10 * y) div 10 = y"
  using assms by simp_all

lemma digits_of_nat:
  fixes a b c e :: nat
  assumes "a \<le> 9" "b \<le> 9" "c \<le> 9" "e \<le> 9"
  shows "(a + 10 * b + 100 * c + 1000 * e) mod 10 = a"
    and "(a + 10 * b + 100 * c + 1000 * e) div 10 mod 10 = b"
    and "(a + 10 * b + 100 * c + 1000 * e) div 100 mod 10 = c"
    and "(a + 10 * b + 100 * c + 1000 * e) div 1000 mod 10 = e"
proof -
  let ?v = "a + 10 * b + 100 * c + 1000 * e"
  have v: "?v = a + 10 * (b + 10 * (c + 10 * e))" by simp
  have q1: "?v div 10 = b + 10 * (c + 10 * e)"
    unfolding v using assms(1) by (rule digit_split)
  have q2: "?v div 100 = c + 10 * e"
  proof -
    have "?v div 100 = ?v div 10 div 10" by (simp add: div_mult2_eq [symmetric])
    also have "\<dots> = c + 10 * e" unfolding q1 using assms(2) by (rule digit_split)
    finally show ?thesis .
  qed
  have q3: "?v div 1000 = e"
  proof -
    have "?v div 1000 = ?v div 100 div 10" by (simp add: div_mult2_eq [symmetric])
    also have "\<dots> = e" unfolding q2 using assms(3) by (rule digit_split)
    finally show ?thesis .
  qed
  show "?v mod 10 = a" unfolding v using assms(1) by (rule digit_split)
  show "?v div 10 mod 10 = b" unfolding q1 using assms(2) by (rule digit_split)
  show "?v div 100 mod 10 = c" unfolding q2 using assms(3) by (rule digit_split)
  show "?v div 1000 mod 10 = e" unfolding q3 using assms(4) by simp
qed

lemma word_of_nat_unat_id: "word_of_nat (unat w) = (w :: 'a::len word)"
  by simp

lemma bcd_valid_iff:
  "bcd_valid w \<longleftrightarrow>
     bcd_nibble w 0 \<le> 9 \<and> bcd_nibble w 1 \<le> 9 \<and> bcd_nibble w 2 \<le> 9 \<and> bcd_nibble w 3 \<le> 9"
  by (simp add: bcd_valid_def upt4)

lemma bcd_valid_all: "bcd_valid w \<longleftrightarrow> (\<forall>k<4. bcd_nibble w k \<le> 9)"
  by (auto simp: bcd_valid_def list_all_iff)

lemma decode_valid:
  "bcd_valid w \<Longrightarrow>
   decode_unsigned_bcd16 w =
     int (bcd_nibble w 0 + 10 * bcd_nibble w 1 + 100 * bcd_nibble w 2 + 1000 * bcd_nibble w 3)"
  by (simp add: decode_unsigned_bcd16_def upt4)

lemma decode_valid_sum:
  "bcd_valid w \<Longrightarrow> decode_unsigned_bcd16 w = (\<Sum>k<4. int (bcd_nibble w k) * 10 ^ k)"
proof -
  have "{..<4::nat} = {0, 1, 2, 3}" by auto
  then show "bcd_valid w \<Longrightarrow> decode_unsigned_bcd16 w = (\<Sum>k<4. int (bcd_nibble w k) * 10 ^ k)"
    by (simp add: decode_valid)
qed

lemma decode_valid_range:
  "bcd_valid w \<Longrightarrow> 0 \<le> decode_unsigned_bcd16 w \<and> decode_unsigned_bcd16 w \<le> 9999"
  by (simp add: decode_valid) (simp add: bcd_valid_iff)

lemma decode_invalid: "\<not> bcd_valid w \<Longrightarrow> decode_unsigned_bcd16 w = INT16_MAX"
  by (simp add: decode_unsigned_bcd16_def)

lemma word16_nibbles:
  "(w :: 16 word) =
     word_of_nat (bcd_nibble w 0 + 16 * bcd_nibble w 1 + 256 * bcd_nibble w 2 + 4096 * bcd_nibble w 3)"
proof -
  have n0: "bcd_nibble w 0 = unat w mod 16"
    and n1: "bcd_nibble w 1 = unat w div 16 mod 16"
    and n2: "bcd_nibble w 2 = unat w div 256 mod 16"
    and n3: "bcd_nibble w 3 = unat w div 4096 mod 16"
    by (simp_all add: bcd_nibble_unat)
  have "unat w < 65536"
    using unsigned_less [of w, where 'a = nat] by simp
  then have "unat w = unat w mod 16 + 16 * (unat w div 16 mod 16) + 256 * (unat w div 256 mod 16)
                + 4096 * (unat w div 4096 mod 16)"
    by (rule nibbles_of_nat)
  then have "unat w = bcd_nibble w 0 + 16 * bcd_nibble w 1 + 256 * bcd_nibble w 2 + 4096 * bcd_nibble w 3"
    unfolding n0 n1 n2 n3 .
  then have "word_of_nat (unat w) =
     (word_of_nat (bcd_nibble w 0 + 16 * bcd_nibble w 1 + 256 * bcd_nibble w 2 + 4096 * bcd_nibble w 3) :: 16 word)"
    by (rule arg_cong)
  then show ?thesis by (simp only: word_of_nat_unat_id) 

qed

lemma decode_1234: "decode_unsigned_bcd16 0x1234 = 1234"
  by (simp add: decode_unsigned_bcd16_def bcd_valid_def bcd_nibble_unat upt4)

lemma decode_12A4: "decode_unsigned_bcd16 0x12A4 = INT16_MAX"
  by (simp add: decode_unsigned_bcd16_def bcd_valid_def bcd_nibble_unat upt4)

section \<open>The return code of a read and the words it stores\<close>

lemma failed_pass_entry:
  assumes dc: "do_chunk env ty area_ptr st = Inl (rv, st')"
  shows "\<exists>c\<in>set (ls_log st').
           \<not> (c_retval c = FINS_RETVAL_SUCCESS \<and> c_replylen c = 2 + 2 * c_length c)"
proof -
  let ?cl = "next_chunk_length env (ls_todo st)"
  from dc obtain rv0 sys' reply replylen fins_cmnd bodylen where
    len: "rv0 = FINS_RETVAL_SUCCESS \<longrightarrow> replylen \<noteq> 2 + 2 * ?cl"
    and log': "ls_log st' = ls_log st @
       [\<lparr>c_start = ls_chunk_start st, c_length = ?cl,
         c_offset = ls_offset st, c_cmnd = fins_cmnd, c_bodylen = bodylen,
         c_retval = rv0, c_reply = reply, c_replylen = replylen\<rparr>]"
    by (rule do_chunk_Inl) blast
  let ?e = "\<lparr>c_start = ls_chunk_start st, c_length = ?cl,
         c_offset = ls_offset st, c_cmnd = fins_cmnd, c_bodylen = bodylen,
         c_retval = rv0, c_reply = reply, c_replylen = replylen\<rparr>"
  have "?e \<in> set (ls_log st')" by (simp add: log')
  moreover have "\<not> (c_retval ?e = FINS_RETVAL_SUCCESS \<and> c_replylen ?e = 2 + 2 * c_length ?e)"
    using len by auto
  ultimately show ?thesis by blast
qed

lemma stored_decoded:
  "uint (word_of_int (decode_unsigned_bcd16 w) :: 16 word) = decode_unsigned_bcd16 w"
proof (cases "bcd_valid w")
  case True
  then have "0 \<le> decode_unsigned_bcd16 w \<and> decode_unsigned_bcd16 w \<le> 9999"
    by (rule decode_valid_range)
  then show ?thesis
    by (simp add: uint_word_of_int)
next
  case False
  then show ?thesis
    by (simp add: decode_invalid INT16_MAX_def)
qed

lemma read_outcome:
  assumes m: "0 < FINS_MAX_READ_WORDS_SYSWAY env"
    and le: "loop_entry env sys start (Some d) num_bcd16 = Some (area_ptr, st0)"
  shows "\<exists>r d'. process_data env sys start (Some d) num_bcd16 ty = Some r
      \<and> out_data r = Some d'
      \<and> (retval r = FINS_RETVAL_SUCCESS \<longleftrightarrow>
           (\<forall>c\<in>set (out_log r).
              c_retval c = FINS_RETVAL_SUCCESS \<and> c_replylen c = 2 + 2 * c_length c))
      \<and> (retval r = FINS_RETVAL_SUCCESS \<longrightarrow>
           (\<forall>c\<in>set (out_log r). \<forall>a<c_length c.
              d' (unat (c_offset c) + unat a) =
                word_of_int (finslib_bcd_to_int env (wire_word (body (c_reply c)) a) ty)))"
  using m le
proof (cases rule: read_result_cases [where ty = ty])
  case (failed k st rv st')
  from m failed(1) obtain st1 where
    "loop_entry env sys start (Some d) num_bcd16 = Some (area_ptr, st1)"
    and inv: "loop_inv env ty num_bcd16 (ls_chunk_start st1) d st" and pos: "0 < ls_todo st"
    and "length (ls_log st) = k"
    by (rule pass_state_inv)
  have ne: "rv \<noteq> FINS_RETVAL_SUCCESS"
    using inv m pos failed(2) by (rule failed_pass(4))
  have bad: "\<exists>c\<in>set (ls_log st').
           \<not> (c_retval c = FINS_RETVAL_SUCCESS \<and> c_replylen c = 2 + 2 * c_length c)"
    using failed(2) by (rule failed_pass_entry)
  let ?r = "finish rv st'"
  have "retval ?r = rv" "out_log ?r = ls_log st'" "out_data ?r = Some (ls_data st')"
    by (simp_all add: finish_def)
  with failed(3) ne bad show ?thesis
    by (intro exI [of _ ?r] exI [of _ "ls_data st'"]) auto
next
  case (complete k st st')
  from m complete(1) obtain st1 where
    "loop_entry env sys start (Some d) num_bcd16 = Some (area_ptr, st1)"
    and inv: "loop_inv env ty num_bcd16 (ls_chunk_start st1) d st" and pos: "0 < ls_todo st"
    and "length (ls_log st) = k"
    by (rule pass_state_inv)
  have "loop_inv env ty num_bcd16 (ls_chunk_start st1) d st'"
    using inv m pos complete(2) by (rule loop_inv_step)
  then have
    i4: "\<forall>c\<in>set (ls_log st').
           c_retval c = FINS_RETVAL_SUCCESS \<and> c_replylen c = 2 + 2 * c_length c"
    and i5: "\<forall>c\<in>set (ls_log st'). \<forall>a<c_length c.
         ls_data st' (unat (c_offset c) + unat a) =
           word_of_int (finslib_bcd_to_int env (wire_word (body (c_reply c)) a) ty)"
    by (simp_all add: loop_inv_def)
  let ?r = "finish FINS_RETVAL_SUCCESS st'"
  have "retval ?r = FINS_RETVAL_SUCCESS" "out_log ?r = ls_log st'"
    "out_data ?r = Some (ls_data st')"
    by (simp_all add: finish_def)
  with complete(4) i4 i5 show ?thesis
    by (intro exI [of _ ?r] exI [of _ "ls_data st'"]) simp
qed

section \<open>The request of a pass\<close>

lemma upt6: "[0..<6] = [0, 1, 2, 3, 4, 5]"
  by (simp add: upt_rec)

lemma low_byte: "(ucast ((x :: size_t) AND 0xff) :: byte) = ucast x"
proof -
  have "x AND 0xff = take_bit 8 x"
    by (simp add: take_bit_eq_mask mask_eq_exp_minus_1)
  then have "unat (ucast (x AND 0xff) :: byte) = unat (ucast x :: byte)"
    by (simp add: unsigned_ucast_eq unsigned_take_bit_eq)
  then show ?thesis
    by (simp only: word_unat_eq_iff)
qed

lemma unat_byte_lt: "unat (b :: byte) < 256"
  using unsigned_less [of b] by simp

lemma two_bytes_unat:
  fixes hi lo :: byte
  shows "unat (push_bit 8 (ucast hi :: 16 word) + ucast lo) = 256 * unat hi + unat lo"
proof -
  have h: "unat hi < 256" and l: "unat lo < 256"
    by (rule unat_byte_lt)+
  have uh: "unat (ucast hi :: 16 word) = unat hi"
    using h by (simp add: unsigned_ucast_eq take_bit_eq_mod)
  have ul: "unat (ucast lo :: 16 word) = unat lo"
    using l by (simp add: unsigned_ucast_eq take_bit_eq_mod)
  have "unat (push_bit 8 (ucast hi :: 16 word)) = take_bit 16 (push_bit 8 (unat (ucast hi :: 16 word)))"
    by (simp add: unsigned_push_bit_eq)
  also have "\<dots> = (256 * unat hi) mod 65536"
    by (simp add: take_bit_eq_mod push_bit_eq_mult uh mult.commute)
  also have "\<dots> = 256 * unat hi"
    using h by simp
  finally have up: "unat (push_bit 8 (ucast hi :: 16 word)) = 256 * unat hi" .
  have "unat (push_bit 8 (ucast hi :: 16 word) + ucast lo) = (256 * unat hi + unat lo) mod 65536"
    by (simp add: unat_word_ariths up ul)
  also have "\<dots> = 256 * unat hi + unat lo"
    using h l by simp
  finally show ?thesis .
qed

lemma unat_ucast16: "unat (ucast (x :: size_t) :: 16 word) = unat x mod 65536"
  by (simp add: unsigned_ucast_eq take_bit_eq_mod)

lemma unat_hi_lo:
  fixes x :: size_t
  shows "unat (ucast (drop_bit 8 x) :: byte) = unat x div 256 mod 256"
    and "unat (ucast x :: byte) = unat x mod 256"
proof -
  have "unat (ucast (drop_bit 8 x) :: byte) = take_bit 8 (drop_bit 8 (unat x))"
    by (simp only: unsigned_ucast_eq unat_drop_bit_eq) simp
  then show "unat (ucast (drop_bit 8 x) :: byte) = unat x div 256 mod 256"
    by (simp add: take_bit_eq_mod drop_bit_eq_div)
  show "unat (ucast x :: byte) = unat x mod 256"
    by (simp add: unsigned_ucast_eq take_bit_eq_mod)
qed

lemma two_bytes:
  fixes x :: size_t
  shows "push_bit 8 (ucast (ucast (drop_bit 8 x) :: byte)) + ucast (ucast x :: byte) = (ucast x :: 16 word)"
proof -
  have "unat (push_bit 8 (ucast (ucast (drop_bit 8 x) :: byte) :: 16 word) + ucast (ucast x :: byte))
      = 256 * unat (ucast (drop_bit 8 x) :: byte) + unat (ucast x :: byte)"
    by (rule two_bytes_unat)
  also have "\<dots> = 256 * (unat x div 256 mod 256) + unat x mod 256"
    by (simp only: unat_hi_lo(1)) (simp only: unat_hi_lo(2))
  also have "\<dots> = unat x mod (256 * 256)"
    by (rule mod_mult2_eq [symmetric])
  also have "\<dots> = unat (ucast x :: 16 word)"
    by (simp add: unat_ucast16)
  finally show ?thesis
    by (simp only: word_unat_eq_iff)
qed

lemma ucast16_add: "(ucast ((a :: size_t) + b) :: 16 word) = ucast a + ucast b"
proof -
  have d: "(65536 :: nat) dvd 2 ^ 64" 
  proof -
    have "(2 :: nat) ^ 64 = 65536 * 2 ^ 48" by simp
    then show ?thesis by (simp only: dvd_triv_left)
  qed
  have "unat (ucast (a + b) :: 16 word) = (unat a + unat b) mod 2 ^ 64 mod 65536"
    by (simp add: unat_ucast16 unat_word_ariths)
  also have "\<dots> = (unat a + unat b) mod 65536"
    using d by (rule mod_mod_cancel)
  also have "\<dots> = unat (ucast a + ucast b :: 16 word)"
    by (simp add: unat_word_ariths unat_ucast16 mod_add_eq)
  finally show ?thesis
    by (simp only: word_unat_eq_iff)
qed

lemma read_command_request:
  assumes rc: "read_command env sys area_ptr chunk_start chunk_length = (fins_cmnd, bodylen, sys')"
  shows "bodylen = 6"
    and "map (body fins_cmnd) [0..<6] =
           [area area_ptr, ucast (drop_bit 8 chunk_start), ucast chunk_start, 0x00,
            ucast (drop_bit 8 chunk_length), ucast chunk_length]"
    and "header fins_cmnd = header (fst (XX_finslib_init_command env sys 0x01 0x01))"
proof -
  obtain c0 s0 where ini: "XX_finslib_init_command env sys 0x01 0x01 = (c0, s0)"
    by (rule prod.exhaust)
  from rc have bl: "bodylen = 6"
    and cm: "fins_cmnd = c0\<lparr>body := (body c0)
        (0 := area area_ptr,
         1 := ucast (drop_bit 8 chunk_start AND 0xff),
         2 := ucast (chunk_start AND 0xff),
         3 := 0x00,
         4 := ucast (drop_bit 8 chunk_length AND 0xff),
         5 := ucast (chunk_length AND 0xff))\<rparr>"
    by (simp_all add: read_command_def put_body_def ini)
  show "bodylen = 6" by (rule bl)
  show "map (body fins_cmnd) [0..<6] =
           [area area_ptr, ucast (drop_bit 8 chunk_start), ucast chunk_start, 0x00,
            ucast (drop_bit 8 chunk_length), ucast chunk_length]"
    by (simp add: cm upt6 low_byte)
  show "header fins_cmnd = header (fst (XX_finslib_init_command env sys 0x01 0x01))"
    by (simp add: cm ini)
qed

lemma logged_request:
  "\<exists>c. ls_log (logged env area_ptr st) = ls_log st @ [c] \<and> read_request env area_ptr c"
proof -
  obtain fins_cmnd bodylen sys rv sys' reply replylen where
    rc: "read_command env (ls_sys st) area_ptr (ls_chunk_start st)
           (next_chunk_length env (ls_todo st)) = (fins_cmnd, bodylen, sys)"
    and co: "XX_finslib_communicate env sys fins_cmnd bodylen True = (rv, sys', reply, replylen)"
    by (rule exchange_cases)
  let ?c = "\<lparr>c_start = ls_chunk_start st, c_length = next_chunk_length env (ls_todo st),
             c_offset = ls_offset st, c_cmnd = fins_cmnd, c_bodylen = bodylen,
             c_retval = rv, c_reply = reply, c_replylen = replylen\<rparr>"
  have "ls_log (logged env area_ptr st) = ls_log st @ [?c]"
    by (simp add: do_chunk_unfold(2) [OF rc co])
  moreover have "read_request env area_ptr ?c"
    unfolding read_request_def request_bytes_def
    using read_command_request [OF rc] by auto
  ultimately show ?thesis by blast
qed

lemma do_chunk_log:
  "do_chunk env ty area_ptr st = Inl (rv, st') \<Longrightarrow> ls_log st' = ls_log (logged env area_ptr st)"
  "do_chunk env ty area_ptr st = Inr st' \<Longrightarrow> ls_log st' = ls_log (logged env area_ptr st)"
proof -
  obtain rv0 sys' reply replylen where
    ex: "exchange env area_ptr st = (rv0, sys', reply, replylen)"
    by (rule prod_cases4)
  show "do_chunk env ty area_ptr st = Inl (rv, st') \<Longrightarrow> ls_log st' = ls_log (logged env area_ptr st)"
    by (auto simp: do_chunk_eq [OF ex] split: if_splits)
  show "do_chunk env ty area_ptr st = Inr st' \<Longrightarrow> ls_log st' = ls_log (logged env area_ptr st)"
    by (auto simp: do_chunk_eq [OF ex] split: if_splits)
qed

lemma passes_requests:
  "passes env ty area_ptr k st0 = Some st \<Longrightarrow>
   \<forall>c\<in>set (ls_log st0). read_request env area_ptr c \<Longrightarrow>
   \<forall>c\<in>set (ls_log st). read_request env area_ptr c"
proof (induction k arbitrary: st0)
  case 0
  then show ?case by simp
next
  case (Suc k)
  from Suc.prems(1) obtain st' where
    dc: "do_chunk env ty area_ptr st0 = Inr st'"
    and rest: "passes env ty area_ptr k st' = Some st"
    by (auto split: sum.splits if_splits)
  from logged_request [of env area_ptr st0] do_chunk_log(2) [OF dc] obtain c where
    "ls_log st' = ls_log st0 @ [c]" "read_request env area_ptr c"
    by auto
  with Suc.prems(2) have "\<forall>c\<in>set (ls_log st'). read_request env area_ptr c"
    by auto
  with rest show ?case by (rule Suc.IH)
qed

lemma pass_requests:
  assumes ps: "pass_state env sys start (Some d) num_bcd16 ty k = Some (area_ptr, st)"
    and lg: "ls_log st' = ls_log (logged env area_ptr st)"
    and c: "c \<in> set (ls_log st')"
  shows "read_request env area_ptr c"
proof -
  from ps obtain st0 where
    le: "loop_entry env sys start (Some d) num_bcd16 = Some (area_ptr, st0)"
    and pa: "passes env ty area_ptr k st0 = Some st"
    by (rule pass_stateD)
  have "ls_log st0 = []"
    using le by (rule loop_entry_inv(3))
  then have "\<forall>c\<in>set (ls_log st0). read_request env area_ptr c"
    by simp
  with pa have "\<forall>c\<in>set (ls_log st). read_request env area_ptr c"
    by (rule passes_requests)
  moreover from logged_request [of env area_ptr st] lg obtain e where
    "ls_log st' = ls_log st @ [e]" "read_request env area_ptr e"
    by auto
  ultimately show ?thesis
    using c by auto
qed

lemma request_wire:
  assumes "read_request env area_ptr c"
  shows "wire_origin c = ucast (c_start c)" and "wire_count c = ucast (c_length c)"
proof -
  from assms have bl: "unat (c_bodylen c) = 6"
    and rb: "request_bytes c =
       [area area_ptr, ucast (drop_bit 8 (c_start c)), ucast (c_start c), 0x00,
        ucast (drop_bit 8 (c_length c)), ucast (c_length c)]"
    by (simp_all add: read_request_def)
  from rb have "map (body (c_cmnd c)) [0..<6] =
       [area area_ptr, ucast (drop_bit 8 (c_start c)), ucast (c_start c), 0x00,
        ucast (drop_bit 8 (c_length c)), ucast (c_length c)]"
    by (simp only: request_bytes_def bl)
  then have b: "body (c_cmnd c) 1 = ucast (drop_bit 8 (c_start c))"
    "body (c_cmnd c) 2 = ucast (c_start c)"
    "body (c_cmnd c) 4 = ucast (drop_bit 8 (c_length c))"
    "body (c_cmnd c) 5 = ucast (c_length c)"
    by (simp_all add: upt6)
  show "wire_origin c = ucast (c_start c)"
    unfolding wire_origin_def b by (rule two_bytes)
  show "wire_count c = ucast (c_length c)"
    unfolding wire_count_def b by (rule two_bytes)
qed

lemma tiles_mem:
  "tiles lo xs hi \<Longrightarrow> (p, l) \<in> set xs \<Longrightarrow> lo \<le> p \<and> 0 < l \<and> p + l \<le> hi"
proof (induction lo xs hi rule: tiles.induct)
  case (1 lo hi)
  then show ?case by simp
next
  case (2 lo q k cs hi)
  from "2.prems"(1) have t: "tiles (lo + k) cs hi" and q: "q = lo" and k: "0 < k"
    by simp_all
  from t have "lo + k \<le> hi"
    using tiles_sum [OF t] by simp
  show ?case
  proof (cases "(p, l) = (q, k)")
    case True
    with q k \<open>lo + k \<le> hi\<close> show ?thesis by simp
  next
    case False
    with "2.prems"(2) have "(p, l) \<in> set cs" by auto
    with t have "lo + k \<le> p \<and> 0 < l \<and> p + l \<le> hi" by (rule "2.IH")
    then show ?thesis by simp
  qed
qed

lemma unat_mod_id16: "(x :: size_t) < 65536 \<Longrightarrow> unat x mod 65536 = unat x"
  by (simp add: word_less_nat_alt)

lemma span_mem:
  assumes t: "tiles 0 (map span cs) hi" and c: "c \<in> set cs"
  shows "0 < unat (c_length c)" and "unat (c_offset c) + unat (c_length c) \<le> hi"
proof -
  from c have "(unat (c_offset c), unat (c_length c)) \<in> set (map span cs)"
    by (auto simp: span_def image_iff intro!: bexI [of _ c])
  with t have "0 \<le> unat (c_offset c) \<and> 0 < unat (c_length c)
      \<and> unat (c_offset c) + unat (c_length c) \<le> hi"
    by (rule tiles_mem)
  then show "0 < unat (c_length c)" and "unat (c_offset c) + unat (c_length c) \<le> hi"
    by simp_all
qed

lemma origin_exact:
  fixes base off :: size_t
  assumes "unat base + unat off < 65536"
  shows "unat (base + off) mod 65536 = unat base + unat off"
proof -
  have "unat base + unat off < 2 ^ LENGTH(64)"
    using assms by simp
  then have "unat (base + off) = unat base + unat off"
    by (rule unat_add_lem [THEN iffD1])
  with assms show ?thesis by simp
qed

section \<open>Runs of the scripted controller\<close>

lemma demo_env_sel [simp]:
  "FINS_MAX_READ_WORDS_SYSWAY (demo_env m conv) = m"
  "finslib_bcd_to_int (demo_env m conv) = conv"
  "INVALID_SOCKET (demo_env m conv) = - 1"
  by (simp_all add: demo_env_def)

lemma demo_entry:
  "n \<noteq> 0 \<Longrightarrow>
   loop_entry (demo_env m conv) (Some (demo_sys 4 kind script)) (Some ''D100'') (Some d) n =
     Some (demo_area,
           \<lparr>ls_sys = demo_sys 4 kind script, ls_data = d, ls_offset = 0, ls_todo = n,
            ls_chunk_start = 100, ls_log = []\<rparr>)"
  by (simp add: loop_entry_def demo_env_def demo_sys_def start_state_def demo_area_def)

lemma demo_exchange:
  "ls_sys st = demo_sys fd kind ((rv, bytes) # rest) \<Longrightarrow>
   exchange (demo_env m conv) area_ptr st =
     (rv, demo_sys fd kind rest, \<lparr>header = [1, 1], body = reply_body bytes\<rparr>,
      of_nat (length bytes))"
  by (simp add: exchange_def read_command_def put_body_def demo_env_def demo_sys_def
        scripted_communicate_def Let_def)

lemma demo_pass_ok:
  assumes sys: "ls_sys st = demo_sys fd kind ((FINS_RETVAL_SUCCESS, bytes) # rest)"
    and len: "of_nat (length bytes) = 2 + 2 * next_chunk_length (demo_env m conv) (ls_todo st)"
  obtains st' e where
    "do_chunk (demo_env m conv) ty area_ptr st = Inr st'"
    "ls_sys st' = demo_sys fd kind rest"
    "ls_todo st' = ls_todo st - next_chunk_length (demo_env m conv) (ls_todo st)"
    "ls_offset st' = ls_offset st + next_chunk_length (demo_env m conv) (ls_todo st)"
    "ls_log st' = ls_log st @ [e]"
    "c_offset e = ls_offset st"
    "c_length e = next_chunk_length (demo_env m conv) (ls_todo st)"
    "c_start e = ls_chunk_start st"
    "body (c_reply e) = reply_body bytes"
proof -
  let ?env = "demo_env m conv"
  let ?cl = "next_chunk_length ?env (ls_todo st)"
  have ex: "exchange ?env area_ptr st =
     (FINS_RETVAL_SUCCESS, demo_sys fd kind rest, \<lparr>header = [1, 1], body = reply_body bytes\<rparr>,
      of_nat (length bytes))"
    using sys by (rule demo_exchange)
  from logged_eq [OF ex] obtain fins_cmnd bodylen where
    lg: "logged ?env area_ptr st =
           st\<lparr>ls_sys := demo_sys fd kind rest,
              ls_log := ls_log st @
                [\<lparr>c_start = ls_chunk_start st, c_length = ?cl,
                  c_offset = ls_offset st, c_cmnd = fins_cmnd, c_bodylen = bodylen,
                  c_retval = FINS_RETVAL_SUCCESS,
                  c_reply = \<lparr>header = [1, 1], body = reply_body bytes\<rparr>,
                  c_replylen = of_nat (length bytes)\<rparr>]\<rparr>"
    by blast
  let ?e = "\<lparr>c_start = ls_chunk_start st, c_length = ?cl,
                  c_offset = ls_offset st, c_cmnd = fins_cmnd, c_bodylen = bodylen,
                  c_retval = FINS_RETVAL_SUCCESS,
                  c_reply = \<lparr>header = [1, 1], body = reply_body bytes\<rparr>,
                  c_replylen = of_nat (length bytes)\<rparr>"
  let ?st' = "(logged ?env area_ptr st)
                 \<lparr>ls_data := read_words (finslib_bcd_to_int ?env) ty (reply_body bytes)
                      ?cl (ls_offset st) 0 2 (ls_data st),
                  ls_todo := ls_todo st - ?cl,
                  ls_offset := ls_offset st + ?cl,
                  ls_chunk_start := ls_chunk_start st + ?cl\<rparr>"
  have dc: "do_chunk ?env ty area_ptr st = Inr ?st'"
    using len by (simp add: do_chunk_eq [OF ex])
  show thesis
    by (rule that [of ?st' ?e]) (simp_all add: dc lg)
qed

lemma wire_word_reply:
  "wire_word (reply_body bytes) a =
     push_bit 8 (ucast (reply_body bytes (unat (2 + 2 * a))))
     + ucast (reply_body bytes (unat (2 + 2 * a + 1)))"
  by (simp add: wire_word_def)

lemma demo_first_chunk:
  fixes d :: "nat \<Rightarrow> 16 word"
  defines "env \<equiv> demo_env 3 bcd_conv"
  obtains st1 e1 where
    "pass_state env (Some (demo_sys 4 kind ((FINS_RETVAL_SUCCESS, first_reply) # rest)))
       (Some ''D100'') (Some d) 5 ty 1 = Some (demo_area, st1)"
    "ls_sys st1 = demo_sys 4 kind rest" "ls_todo st1 = 2" "ls_offset st1 = 3"
    "ls_chunk_start st1 = 103" "ls_log st1 = [e1]"
    "c_offset e1 = 0" "c_length e1 = 3" "c_start e1 = 100"
    "body (c_reply e1) = reply_body first_reply"
proof -
  let ?sys = "demo_sys 4 kind ((FINS_RETVAL_SUCCESS, first_reply) # rest)"
  let ?st0 = "\<lparr>ls_sys = ?sys, ls_data = d, ls_offset = 0, ls_todo = 5,
            ls_chunk_start = 100, ls_log = []\<rparr> :: script loop_state"
  have le: "loop_entry env (Some ?sys) (Some ''D100'') (Some d) 5 = Some (demo_area, ?st0)"
    unfolding env_def by (rule demo_entry) simp
  have n1: "next_chunk_length (demo_env 3 bcd_conv) 5 = 3"
    by (simp add: next_chunk_length_def)
  have "ls_sys ?st0 = ?sys"
    by simp
  moreover have "of_nat (length first_reply) =
          2 + 2 * next_chunk_length (demo_env 3 bcd_conv) (ls_todo ?st0)"
    by (simp add: n1 first_reply_def)
  ultimately obtain st1 e1 where
    dc1: "do_chunk env ty demo_area ?st0 = Inr st1"
    and sys1: "ls_sys st1 = demo_sys 4 kind rest"
    and todo1: "ls_todo st1 = 2" and off1: "ls_offset st1 = 3"
    and log1: "ls_log st1 = [e1]"
    and e1: "c_offset e1 = 0" "c_length e1 = 3" "c_start e1 = 100"
      "body (c_reply e1) = reply_body first_reply"
    unfolding env_def
    by (rule demo_pass_ok [where ty = ty and area_ptr = demo_area]) (simp_all add: n1)
  have more1: "0 < ls_todo st1" by (simp add: todo1)
  have cs1: "ls_chunk_start st1 = 103"
    using dc1 by (rule do_chunk_Inr) (simp add: n1 env_def)
  have ps1: "pass_state env (Some ?sys) (Some ''D100'') (Some d) 5 ty 1 = Some (demo_area, st1)"
    using le by (rule pass_stateI) (simp add: dc1 more1)
  show thesis
    by (rule that [of st1 e1]) (fact ps1 sys1 todo1 off1 cs1 log1 e1)+
qed

lemma demo_two_chunks:
  fixes d :: "nat \<Rightarrow> 16 word"
  defines "env \<equiv> demo_env 3 bcd_conv"
  obtains r e1 e2 where
    "process_data env
       (Some (demo_sys 4 kind [(FINS_RETVAL_SUCCESS, first_reply), (FINS_RETVAL_SUCCESS, second_reply)]))
       (Some ''D100'') (Some d) 5 ty = Some r"
    "retval r = FINS_RETVAL_SUCCESS"
    "out_log r = [e1, e2]"
    "c_offset e1 = 0" "c_length e1 = 3" "c_start e1 = 100"
    "body (c_reply e1) = reply_body first_reply"
    "c_offset e2 = 3" "c_length e2 = 2" "c_start e2 = 103"
    "body (c_reply e2) = reply_body second_reply"
proof -
  let ?sys = "demo_sys 4 kind [(FINS_RETVAL_SUCCESS, first_reply), (FINS_RETVAL_SUCCESS, second_reply)]"
  obtain st1 e1 where
    ps1: "pass_state env (Some ?sys) (Some ''D100'') (Some d) 5 ty 1 = Some (demo_area, st1)"
    and sys1: "ls_sys st1 = demo_sys 4 kind [(FINS_RETVAL_SUCCESS, second_reply)]"
    and todo1: "ls_todo st1 = 2" and off1: "ls_offset st1 = 3"
    and cs1: "ls_chunk_start st1 = 103" and log1: "ls_log st1 = [e1]"
    and e1: "c_offset e1 = 0" "c_length e1 = 3" "c_start e1 = 100"
      "body (c_reply e1) = reply_body first_reply"
    unfolding env_def by (rule demo_first_chunk)
  have n2: "next_chunk_length (demo_env 3 bcd_conv) 2 = 2"
    by (simp add: next_chunk_length_def)
  have "of_nat (length second_reply) =
          2 + 2 * next_chunk_length (demo_env 3 bcd_conv) (ls_todo st1)"
    by (simp add: n2 todo1 second_reply_def)
  with sys1 obtain st2 e2 where
    dc2: "do_chunk env ty demo_area st1 = Inr st2"
    and todo2: "ls_todo st2 = 0"
    and log2: "ls_log st2 = [e1, e2]"
    and e2: "c_offset e2 = 3" "c_length e2 = 2" "c_start e2 = 103"
      "body (c_reply e2) = reply_body second_reply"
    unfolding env_def
    by (rule demo_pass_ok [where ty = ty and area_ptr = demo_area])
       (simp_all add: n2 todo1 off1 log1 cs1)
  have "process_data env (Some ?sys) (Some ''D100'') (Some d) 5 ty = chunk_loop env ty demo_area st1"
    using ps1 by (rule process_data_pass)
  also have "\<dots> = Some (finish FINS_RETVAL_SUCCESS st2)"
    using dc2 by (rule chunk_loop_Inr_done) (simp add: todo2)
  finally have pd: "process_data env (Some ?sys) (Some ''D100'') (Some d) 5 ty =
       Some (finish FINS_RETVAL_SUCCESS st2)" .
  show thesis
    by (rule that [of "finish FINS_RETVAL_SUCCESS st2" e1 e2])
       (simp_all add: pd finish_def log2 e1 e2)
qed

lemma first_reply_words:
  "bcd_conv (wire_word (reply_body first_reply) 0) ty = 1234"
  "bcd_conv (wire_word (reply_body first_reply) 1) ty = 7"
  "bcd_conv (wire_word (reply_body first_reply) 2) ty = 9999"
  by (simp_all add: bcd_conv_def wire_word_def reply_body_def first_reply_def
        decode_unsigned_bcd16_def bcd_valid_def bcd_nibble_unat upt4)

lemma second_reply_words:
  "bcd_conv (wire_word (reply_body second_reply) 0) ty = 42"
  "bcd_conv (wire_word (reply_body second_reply) 1) ty = 5678"
  by (simp_all add: bcd_conv_def wire_word_def reply_body_def second_reply_def
        decode_unsigned_bcd16_def bcd_valid_def bcd_nibble_unat upt4)

lemma demo_name_exchange:
  "\<exists>reply. name_exchange (demo_env m conv) (demo_sys fd kind ((rv, bytes) # rest)) nm =
     (rv, demo_sys fd kind rest, reply, of_nat (length bytes))"
proof -
  obtain c bl where cn: "copy_name nm \<lparr>header = [0x26, 0x01], body = (\<lambda>i. 0)\<rparr> 0 = (c, bl)"
    by (rule prod.exhaust)
  have "name_exchange (demo_env m conv) (demo_sys fd kind ((rv, bytes) # rest)) nm =
     (rv, demo_sys fd kind rest, c\<lparr>body := reply_body bytes\<rparr>, of_nat (length bytes))"
    by (simp add: name_exchange_def demo_env_def cn scripted_communicate_def demo_sys_def)
  then show ?thesis by blast
qed

lemma lessThan4: "{..<4::nat} = {0, 1, 2, 3}"
  by auto

lemma demo_words_valid: "bcd_valid 0x1234" "\<not> bcd_valid 0x12A4" "bcd_valid 0x0123" "\<not> bcd_valid 0x01A3"
  by (simp_all add: bcd_valid_def bcd_nibble_unat upt4)

lemma sum_1234: "(\<Sum>k<4. int (bcd_nibble 0x1234 k) * 10 ^ k) = 1234"
  by (simp add: lessThan4 bcd_nibble_unat)

lemma demo_one_chunk:
  fixes d :: "nat \<Rightarrow> 16 word"
  defines "env \<equiv> demo_env 3 bcd_conv"
  obtains r e1 where
    "process_data env (Some (demo_sys 4 kind [(FINS_RETVAL_SUCCESS, invalid_reply)]))
       (Some ''D100'') (Some d) 2 ty = Some r"
    "retval r = FINS_RETVAL_SUCCESS" "out_log r = [e1]"
    "c_offset e1 = 0" "c_length e1 = 2" "body (c_reply e1) = reply_body invalid_reply"
proof -
  let ?sys = "demo_sys 4 kind [(FINS_RETVAL_SUCCESS, invalid_reply)]"
  let ?st0 = "\<lparr>ls_sys = ?sys, ls_data = d, ls_offset = 0, ls_todo = 2,
            ls_chunk_start = 100, ls_log = []\<rparr> :: script loop_state"
  have le: "loop_entry env (Some ?sys) (Some ''D100'') (Some d) 2 = Some (demo_area, ?st0)"
    unfolding env_def by (rule demo_entry) simp
  have n1: "next_chunk_length (demo_env 3 bcd_conv) 2 = 2"
    by (simp add: next_chunk_length_def)
  have "ls_sys ?st0 = demo_sys 4 kind ((FINS_RETVAL_SUCCESS, invalid_reply) # [])"
    by simp
  moreover have "of_nat (length invalid_reply) =
          2 + 2 * next_chunk_length (demo_env 3 bcd_conv) (ls_todo ?st0)"
    by (simp add: n1 invalid_reply_def)
  ultimately obtain st1 e1 where
    dc1: "do_chunk env ty demo_area ?st0 = Inr st1"
    and todo1: "ls_todo st1 = 0" and log1: "ls_log st1 = [e1]"
    and e1: "c_offset e1 = 0" "c_length e1 = 2" "body (c_reply e1) = reply_body invalid_reply"
    unfolding env_def
    by (rule demo_pass_ok [where ty = ty and area_ptr = demo_area]) (simp_all add: n1)
  have "process_data env (Some ?sys) (Some ''D100'') (Some d) 2 ty = chunk_loop env ty demo_area ?st0"
    using le by (rule process_data_loop)
  also have "\<dots> = Some (finish FINS_RETVAL_SUCCESS st1)"
    using dc1 by (rule chunk_loop_Inr_done) (simp add: todo1)
  finally show thesis
    by (intro that [of "finish FINS_RETVAL_SUCCESS st1" e1]) (simp_all add: finish_def log1 e1)
qed

lemma invalid_reply_words:
  "wire_word (reply_body invalid_reply) 0 = 0x1234"
  "wire_word (reply_body invalid_reply) 1 = 0x12A4"
  by (simp_all add: wire_word_def reply_body_def invalid_reply_def)

section \<open>Decoding BCD16\<close>

text \<open>
  Claim C1. A 16-bit wire word decoded as unsigned BCD16 whose four nibbles are all
  decimal digits gives the sum over the positions of digit times 10 to the position, a
  value from 0 to 9999 (\<^verbatim>\<open>0x1234\<close> gives 1234); a word with any nibble above 9 gives the
  sentinel \<^verbatim>\<open>INT16_MAX\<close>, whatever the other nibbles are. A signed variant decodes its
  magnitude by the same rule and gives the sentinel when the magnitude is invalid. The
  decoder is modelled from the specification. On the code: when
  \<^verbatim>\<open>finslib_bcd_to_int\<close> is that decoder for the type \<^verbatim>\<open>FINS_DATA_TYPE_BCD16\<close>,
  \<^verbatim>\<open>finslib_memory_area_read_bcd16\<close> returns, and its return code depends on the exchanges
  only, never on the words: it is \<^verbatim>\<open>FINS_RETVAL_SUCCESS\<close> exactly when every exchange
  returned success with a response of the expected length. After a successful read
  every element of the output array holds the decoded value of its wire word, and the
  sentinel where the word was not BCD.
\<close>

theorem bcd16_decoding:
  "(bcd_valid w \<longleftrightarrow> (\<forall>k<4. bcd_nibble w k \<le> 9))
   \<and> (bcd_valid w \<longrightarrow>
        decode_unsigned_bcd16 w = (\<Sum>k<4. int (bcd_nibble w k) * 10 ^ k)
      \<and> 0 \<le> decode_unsigned_bcd16 w \<and> decode_unsigned_bcd16 w \<le> 9999)
   \<and> (\<not> bcd_valid w \<longrightarrow> decode_unsigned_bcd16 w = INT16_MAX)
   \<and> (bcd_valid (magnitude_of v w) \<longrightarrow>
        decode_signed_bcd16 v w =
          sign_of v w (\<Sum>k<4. int (bcd_nibble (magnitude_of v w) k) * 10 ^ k))
   \<and> (\<not> bcd_valid (magnitude_of v w) \<longrightarrow> decode_signed_bcd16 v w = INT16_MAX)
   \<and> (0 < FINS_MAX_READ_WORDS_SYSWAY env
      \<and> loop_entry env sys start (Some d) n = Some (area_ptr, st0)
      \<and> (\<forall>x. finslib_bcd_to_int env x (FINS_DATA_TYPE_BCD16 env) = decode_unsigned_bcd16 x)
      \<longrightarrow> (\<exists>r d'. finslib_memory_area_read_bcd16 env sys start (Some d) n = Some r
             \<and> out_data r = Some d'
             \<and> (retval r = FINS_RETVAL_SUCCESS \<longleftrightarrow>
                  (\<forall>c\<in>set (out_log r).
                     c_retval c = FINS_RETVAL_SUCCESS \<and> c_replylen c = 2 + 2 * c_length c))
             \<and> (retval r = FINS_RETVAL_SUCCESS \<longrightarrow>
                  (\<forall>c\<in>set (out_log r). \<forall>a<c_length c.
                     uint (d' (unat (c_offset c) + unat a)) =
                       decode_unsigned_bcd16 (wire_word (body (c_reply c)) a)))))"
proof (intro conjI impI)
  show "bcd_valid w \<longleftrightarrow> (\<forall>k<4. bcd_nibble w k \<le> 9)"
    by (rule bcd_valid_all)
next
  assume "bcd_valid w"
  then show "decode_unsigned_bcd16 w = (\<Sum>k<4. int (bcd_nibble w k) * 10 ^ k)"
    by (rule decode_valid_sum)
next
  assume "bcd_valid w"
  then show "0 \<le> decode_unsigned_bcd16 w" "decode_unsigned_bcd16 w \<le> 9999"
    using decode_valid_range by blast+
next
  assume "\<not> bcd_valid w"
  then show "decode_unsigned_bcd16 w = INT16_MAX"
    by (rule decode_invalid)
next
  assume v: "bcd_valid (magnitude_of v w)"
  then show "decode_signed_bcd16 v w =
          sign_of v w (\<Sum>k<4. int (bcd_nibble (magnitude_of v w) k) * 10 ^ k)"
    by (simp add: decode_signed_bcd16_def decode_valid_sum [OF v])
next
  assume "\<not> bcd_valid (magnitude_of v w)"
  then show "decode_signed_bcd16 v w = INT16_MAX"
    by (simp add: decode_signed_bcd16_def)
next
  assume a: "0 < FINS_MAX_READ_WORDS_SYSWAY env
      \<and> loop_entry env sys start (Some d) n = Some (area_ptr, st0)
      \<and> (\<forall>x. finslib_bcd_to_int env x (FINS_DATA_TYPE_BCD16 env) = decode_unsigned_bcd16 x)"
  then have m: "0 < FINS_MAX_READ_WORDS_SYSWAY env"
    and le: "loop_entry env sys start (Some d) n = Some (area_ptr, st0)"
    and conv: "\<And>x. finslib_bcd_to_int env x (FINS_DATA_TYPE_BCD16 env) = decode_unsigned_bcd16 x"
    by simp_all
  from read_outcome [OF m le, of "FINS_DATA_TYPE_BCD16 env"] obtain r d' where
    pd: "process_data env sys start (Some d) n (FINS_DATA_TYPE_BCD16 env) = Some r"
    and od: "out_data r = Some d'"
    and rv: "retval r = FINS_RETVAL_SUCCESS \<longleftrightarrow>
           (\<forall>c\<in>set (out_log r).
              c_retval c = FINS_RETVAL_SUCCESS \<and> c_replylen c = 2 + 2 * c_length c)"
    and words: "retval r = FINS_RETVAL_SUCCESS \<longrightarrow>
           (\<forall>c\<in>set (out_log r). \<forall>a<c_length c.
              d' (unat (c_offset c) + unat a) =
                word_of_int (decode_unsigned_bcd16 (wire_word (body (c_reply c)) a)))"
    unfolding conv by blast
  have "retval r = FINS_RETVAL_SUCCESS \<longrightarrow>
                  (\<forall>c\<in>set (out_log r). \<forall>a<c_length c.
                     uint (d' (unat (c_offset c) + unat a)) =
                       decode_unsigned_bcd16 (wire_word (body (c_reply c)) a))"
    using words by (simp add: stored_decoded)
  with pd od rv show "\<exists>r d'. finslib_memory_area_read_bcd16 env sys start (Some d) n = Some r
             \<and> out_data r = Some d'
             \<and> (retval r = FINS_RETVAL_SUCCESS \<longleftrightarrow>
                  (\<forall>c\<in>set (out_log r).
                     c_retval c = FINS_RETVAL_SUCCESS \<and> c_replylen c = 2 + 2 * c_length c))
             \<and> (retval r = FINS_RETVAL_SUCCESS \<longrightarrow>
                  (\<forall>c\<in>set (out_log r). \<forall>a<c_length c.
                     uint (d' (unat (c_offset c) + unat a)) =
                       decode_unsigned_bcd16 (wire_word (body (c_reply c)) a)))"
    unfolding finslib_memory_area_read_bcd16_def
    by (intro exI [of _ r] exI [of _ d']) (simp only: simp_thms)
qed

theorem bcd16_decoding_witness:
  "decode_unsigned_bcd16 0x1234 = 1234
   \<and> decode_unsigned_bcd16 0x12A4 = 32767
   \<and> decode_signed_bcd16 sign_nibble_variant 0x8123 = - 123
   \<and> decode_signed_bcd16 sign_nibble_variant 0x81A3 = 32767
   \<and> (\<exists>r d'. finslib_memory_area_read_bcd16 (demo_env 3 bcd_conv)
                 (Some (demo_sys 4 Stream [(FINS_RETVAL_SUCCESS, invalid_reply)]))
                 (Some ''D100'') (Some blank) 2 = Some r
          \<and> retval r = FINS_RETVAL_SUCCESS \<and> out_data r = Some d'
          \<and> uint (d' 0) = 1234 \<and> uint (d' 1) = 32767)"
proof -
  let ?env = "demo_env 3 bcd_conv"
  let ?sys = "demo_sys 4 Stream [(FINS_RETVAL_SUCCESS, invalid_reply)]"
  let ?st0 = "\<lparr>ls_sys = ?sys, ls_data = blank, ls_offset = 0, ls_todo = 2,
            ls_chunk_start = 100, ls_log = []\<rparr> :: script loop_state"
  note inst = bcd16_decoding [where env = ?env and sys = "Some ?sys" and start = "Some ''D100''"
      and d = blank and n = 2 and area_ptr = demo_area]
  have a: "decode_unsigned_bcd16 0x1234 = 1234"
    using inst [where w = "0x1234"] demo_words_valid(1) sum_1234 by simp
  have b: "decode_unsigned_bcd16 0x12A4 = 32767"
    using inst [where w = "0x12A4"] demo_words_valid(2) by (simp add: INT16_MAX_def)
  have mag1: "magnitude_of sign_nibble_variant 0x8123 = 0x0123"
    and mag2: "magnitude_of sign_nibble_variant 0x81A3 = 0x01A3"
    by (simp_all add: sign_nibble_variant_def)
  have s4: "(\<Sum>k<4. int (bcd_nibble 0x0123 k) * 10 ^ k) = 123"
    by (simp add: lessThan4 bcd_nibble_unat)
  have c: "decode_signed_bcd16 sign_nibble_variant 0x8123 = - 123"
  proof -
    from inst [where v = sign_nibble_variant and w = "0x8123"] demo_words_valid(3)
    have "decode_signed_bcd16 sign_nibble_variant 0x8123 =
            sign_of sign_nibble_variant 0x8123 (\<Sum>k<4. int (bcd_nibble 0x0123 k) * 10 ^ k)"
      by (simp only: mag1 simp_thms)
    then show ?thesis
      by (simp only: s4) (simp add: sign_nibble_variant_def)
  qed
  have e: "decode_signed_bcd16 sign_nibble_variant 0x81A3 = 32767"
    using inst [where v = sign_nibble_variant and w = "0x81A3"] demo_words_valid(4)
    by (simp add: mag2 INT16_MAX_def)
  have m: "0 < FINS_MAX_READ_WORDS_SYSWAY ?env" by simp
  have le: "loop_entry ?env (Some ?sys) (Some ''D100'') (Some blank) 2 = Some (demo_area, ?st0)"
    by (rule demo_entry) simp
  have conv: "\<forall>x. finslib_bcd_to_int ?env x (FINS_DATA_TYPE_BCD16 ?env) = decode_unsigned_bcd16 x"
    by (simp add: bcd_conv_def)
  from inst m le conv obtain r d' where
    rd: "finslib_memory_area_read_bcd16 ?env (Some ?sys) (Some ''D100'') (Some blank) 2 = Some r"
    and od: "out_data r = Some d'"
    and words: "retval r = FINS_RETVAL_SUCCESS \<longrightarrow>
                  (\<forall>c\<in>set (out_log r). \<forall>a<c_length c.
                     uint (d' (unat (c_offset c) + unat a)) =
                       decode_unsigned_bcd16 (wire_word (body (c_reply c)) a))"
    by blast
  obtain r0 e1 where
    pd: "process_data ?env (Some ?sys) (Some ''D100'') (Some blank) 2 (FINS_DATA_TYPE_BCD16 ?env) = Some r0"
    and rv: "retval r0 = FINS_RETVAL_SUCCESS" and log: "out_log r0 = [e1]"
    and e1: "c_offset e1 = 0" "c_length e1 = 2" "body (c_reply e1) = reply_body invalid_reply"
    by (rule demo_one_chunk)
  from rd pd have r: "r = r0"
    by (simp add: finslib_memory_area_read_bcd16_def)
  from words rv r log have w: "\<And>a. a < 2 \<Longrightarrow>
      uint (d' (unat a)) = decode_unsigned_bcd16 (wire_word (reply_body invalid_reply) a)"
    by (simp add: e1)
  have "uint (d' 0) = 1234" using w [of 0] by (simp add: invalid_reply_words a)
  moreover have "uint (d' 1) = 32767" using w [of 1] by (simp add: invalid_reply_words b)
  ultimately have "\<exists>r d'. finslib_memory_area_read_bcd16 ?env (Some ?sys) (Some ''D100'') (Some blank) 2 = Some r
          \<and> retval r = FINS_RETVAL_SUCCESS \<and> out_data r = Some d'
          \<and> uint (d' 0) = 1234 \<and> uint (d' 1) = 32767"
    using rd rv r od by (intro exI [of _ r] exI [of _ d']) simp
  with a b c e show ?thesis by (simp only: simp_thms)
qed

section \<open>The chunks of a read\<close>

text \<open>
  Claim C2. For a read of \<open>n > 0\<close> elements that reaches the loop, with per-chunk maximum
  \<^verbatim>\<open>FINS_MAX_READ_WORDS_SYSWAY > 0\<close>, \<^verbatim>\<open>process_data\<close> returns, and the chunks it has issued
  (the log, in order) lie end to end from position 0 of the output array: every chunk is
  not empty and at most the maximum long, every chunk starts where the one before ends
  (its offset in the array and its origin \<^verbatim>\<open>chunk_start\<close> both advance by the length of the
  chunk before), and they never go beyond \<open>n\<close>.

  Every chunk is issued as the request of lines 114-123: a command initialised for 01 01
  with six body bytes, the area code, the high and the low byte of the origin, a zero bit
  index, and the high and the low byte of the length. So the request carries the origin
  and the length modulo \<open>2^16\<close>, and the origin of each request is the origin of the
  request before plus its count in 16-bit arithmetic. When the maximum is below \<open>2^16\<close>
  the count sent is the length of the chunk; when the first origin plus \<open>n\<close> is at most
  \<open>2^16\<close> the origin sent is the first origin plus the offset of the chunk, and each
  origin sent is the one before plus the length of the chunk before, as numbers.

  When the read returns \<^verbatim>\<open>FINS_RETVAL_SUCCESS\<close> the chunks cover exactly the positions 0 to
  \<open>n - 1\<close>, their lengths add up to \<open>n\<close>, element \<open>a\<close> of each chunk is stored,
  converted, at the chunk's offset plus \<open>a\<close>, and the array is unchanged from position
  \<open>n\<close> on.
\<close>

theorem chunks_cover_the_read:
  assumes m: "0 < FINS_MAX_READ_WORDS_SYSWAY env"
    and le: "loop_entry env sys start (Some d) num_bcd16 = Some (area_ptr, st0)"
  shows "\<exists>r d' hi.
      process_data env sys start (Some d) num_bcd16 ty = Some r \<and> out_data r = Some d'
    \<and> tiles 0 (map span (out_log r)) hi \<and> hi \<le> unat num_bcd16
    \<and> (\<forall>c\<in>set (out_log r).
          c_length c \<le> FINS_MAX_READ_WORDS_SYSWAY env
        \<and> c_start c = ls_chunk_start st0 + c_offset c)
    \<and> (\<forall>i. Suc i < length (out_log r) \<longrightarrow>
          c_start (out_log r ! Suc i) = c_start (out_log r ! i) + c_length (out_log r ! i)
        \<and> c_offset (out_log r ! Suc i) = c_offset (out_log r ! i) + c_length (out_log r ! i))
    \<and> (\<forall>c\<in>set (out_log r).
          c_bodylen c = 6
        \<and> request_bytes c =
            [area area_ptr, ucast (drop_bit 8 (c_start c)), ucast (c_start c), 0x00,
             ucast (drop_bit 8 (c_length c)), ucast (c_length c)]
        \<and> (\<exists>s. header (c_cmnd c) = header (fst (XX_finslib_init_command env s 0x01 0x01)))
        \<and> unat (wire_origin c) = unat (c_start c) mod 65536
        \<and> unat (wire_count c) = unat (c_length c) mod 65536)
    \<and> (\<forall>i. Suc i < length (out_log r) \<longrightarrow>
          wire_origin (out_log r ! Suc i) = wire_origin (out_log r ! i) + wire_count (out_log r ! i))
    \<and> (FINS_MAX_READ_WORDS_SYSWAY env < 65536 \<longrightarrow>
          (\<forall>c\<in>set (out_log r). unat (wire_count c) = unat (c_length c)))
    \<and> (unat (ls_chunk_start st0) + unat num_bcd16 \<le> 65536 \<longrightarrow>
          (\<forall>c\<in>set (out_log r).
              unat (wire_origin c) = unat (ls_chunk_start st0) + unat (c_offset c))
        \<and> (\<forall>i. Suc i < length (out_log r) \<longrightarrow>
              unat (wire_origin (out_log r ! Suc i)) =
                unat (wire_origin (out_log r ! i)) + unat (c_length (out_log r ! i))))
    \<and> (retval r = FINS_RETVAL_SUCCESS \<longrightarrow>
          hi = unat num_bcd16
        \<and> sum_list (map (unat \<circ> c_length) (out_log r)) = unat num_bcd16
        \<and> (\<forall>c\<in>set (out_log r). \<forall>a<c_length c.
              d' (unat (c_offset c) + unat a) =
                word_of_int (finslib_bcd_to_int env (wire_word (body (c_reply c)) a) ty))
        \<and> (\<forall>i\<ge>unat num_bcd16. d' i = d i))"
proof -
  let ?base = "ls_chunk_start st0"
  let ?M = "FINS_MAX_READ_WORDS_SYSWAY env"
  obtain r d' hi where
    pd: "process_data env sys start (Some d) num_bcd16 ty = Some r"
    and od: "out_data r = Some d'"
    and t: "tiles 0 (map span (out_log r)) hi" and hi: "hi \<le> unat num_bcd16"
    and b: "\<And>c. c \<in> set (out_log r) \<Longrightarrow> c_length c \<le> ?M \<and> c_start c = ?base + c_offset c"
    and rq: "\<And>c. c \<in> set (out_log r) \<Longrightarrow> read_request env area_ptr c"
    and ok: "retval r = FINS_RETVAL_SUCCESS \<Longrightarrow>
          hi = unat num_bcd16
        \<and> (\<forall>c\<in>set (out_log r). \<forall>a<c_length c.
              d' (unat (c_offset c) + unat a) =
                word_of_int (finslib_bcd_to_int env (wire_word (body (c_reply c)) a) ty))
        \<and> (\<forall>i\<ge>unat num_bcd16. d' i = d i)"
  proof -
    from m le show thesis
    proof (cases rule: read_result_cases [where ty = ty])
      case (failed k st rv st')
      from m failed(1) obtain st1 where
        le1: "loop_entry env sys start (Some d) num_bcd16 = Some (area_ptr, st1)"
        and inv: "loop_inv env ty num_bcd16 (ls_chunk_start st1) d st" and pos: "0 < ls_todo st"
        by (rule pass_state_inv)
      from le le1 have "st1 = st0" by simp
      note inv = inv [unfolded this]
      note fp = failed_pass [OF inv m pos failed(2)]
      from fp(1) obtain hi where
        t: "tiles 0 (map span (ls_log st')) hi" and hi: "hi \<le> unat num_bcd16"
        by blast
      have lg: "ls_log st' = ls_log (logged env area_ptr st)"
        using failed(2) by (rule do_chunk_log(1))
      let ?r = "finish rv st'"
      show thesis
      proof (rule that [of ?r "ls_data st'" hi])
        show "process_data env sys start (Some d) num_bcd16 ty = Some ?r"
          by (rule failed(3))
        show "out_data ?r = Some (ls_data st')"
          by (simp add: finish_def)
        show "tiles 0 (map span (out_log ?r)) hi"
          using t by (simp add: finish_def)
        show "hi \<le> unat num_bcd16" by (rule hi)
        show "c_length c \<le> ?M \<and> c_start c = ?base + c_offset c" if "c \<in> set (out_log ?r)" for c
          using that fp(2) [of c] by (simp add: finish_def)
        show "read_request env area_ptr c" if "c \<in> set (out_log ?r)" for c
          using failed(1) lg that by (simp add: finish_def pass_requests)
        show "hi = unat num_bcd16
          \<and> (\<forall>c\<in>set (out_log ?r). \<forall>a<c_length c.
              ls_data st' (unat (c_offset c) + unat a) =
                word_of_int (finslib_bcd_to_int env (wire_word (body (c_reply c)) a) ty))
          \<and> (\<forall>i\<ge>unat num_bcd16. ls_data st' i = d i)"
          if "retval ?r = FINS_RETVAL_SUCCESS"
          using that fp(4) by (simp add: finish_def)
      qed
    next
      case (complete k st st')
      from m complete(1) obtain st1 where
        le1: "loop_entry env sys start (Some d) num_bcd16 = Some (area_ptr, st1)"
        and inv: "loop_inv env ty num_bcd16 (ls_chunk_start st1) d st" and pos: "0 < ls_todo st"
        by (rule pass_state_inv)
      from le le1 have "st1 = st0" by simp
      note inv = inv [unfolded this]
      have inv': "loop_inv env ty num_bcd16 ?base d st'"
        using inv m pos complete(2) by (rule loop_inv_step)
      then have
        i1: "unat (ls_offset st') + unat (ls_todo st') = unat num_bcd16"
        and i3: "tiles 0 (map span (ls_log st')) (unat (ls_offset st'))"
        and i4: "\<And>c. c \<in> set (ls_log st') \<Longrightarrow>
           c_length c \<le> ?M \<and> c_start c = ?base + c_offset c"
        and i5: "\<And>c a. c \<in> set (ls_log st') \<Longrightarrow> a < c_length c \<Longrightarrow>
           ls_data st' (unat (c_offset c) + unat a) =
             word_of_int (finslib_bcd_to_int env (wire_word (body (c_reply c)) a) ty)"
        and i6: "\<And>i. unat (ls_offset st') \<le> i \<Longrightarrow> ls_data st' i = d i"
        by (simp_all add: loop_inv_def)
      have off: "unat (ls_offset st') = unat num_bcd16"
        using i1 complete(3) by simp
      have lg: "ls_log st' = ls_log (logged env area_ptr st)"
        using complete(2) by (rule do_chunk_log(2))
      let ?r = "finish FINS_RETVAL_SUCCESS st'"
      show thesis
      proof (rule that [of ?r "ls_data st'" "unat num_bcd16"])
        show "process_data env sys start (Some d) num_bcd16 ty = Some ?r"
          by (rule complete(4))
        show "out_data ?r = Some (ls_data st')"
          by (simp add: finish_def)
        show "tiles 0 (map span (out_log ?r)) (unat num_bcd16)"
          using i3 by (simp add: finish_def off)
        show "unat num_bcd16 \<le> unat num_bcd16" by simp
        show "c_length c \<le> ?M \<and> c_start c = ?base + c_offset c" if "c \<in> set (out_log ?r)" for c
          using that i4 [of c] by (simp add: finish_def)
        show "read_request env area_ptr c" if "c \<in> set (out_log ?r)" for c
          using complete(1) lg that by (simp add: finish_def pass_requests)
        show "unat num_bcd16 = unat num_bcd16
          \<and> (\<forall>c\<in>set (out_log ?r). \<forall>a<c_length c.
              ls_data st' (unat (c_offset c) + unat a) =
                word_of_int (finslib_bcd_to_int env (wire_word (body (c_reply c)) a) ty))
          \<and> (\<forall>i\<ge>unat num_bcd16. ls_data st' i = d i)"
          using i5 i6 by (simp add: finish_def off)
      qed
    qed
  qed
  let ?log = "out_log r"
  have cons: "c_start (?log ! Suc i) = c_start (?log ! i) + c_length (?log ! i)
        \<and> c_offset (?log ! Suc i) = c_offset (?log ! i) + c_length (?log ! i)"
    if "Suc i < length ?log" for i
    using log_consecutive [OF t _ that, of ?base] b by simp
  have wire: "wire_origin c = ucast (c_start c)" "wire_count c = ucast (c_length c)"
    if "c \<in> set ?log" for c
    using rq [OF that] by (rule request_wire)+
  have req: "c_bodylen c = 6
        \<and> request_bytes c =
            [area area_ptr, ucast (drop_bit 8 (c_start c)), ucast (c_start c), 0x00,
             ucast (drop_bit 8 (c_length c)), ucast (c_length c)]
        \<and> (\<exists>s. header (c_cmnd c) = header (fst (XX_finslib_init_command env s 0x01 0x01)))
        \<and> unat (wire_origin c) = unat (c_start c) mod 65536
        \<and> unat (wire_count c) = unat (c_length c) mod 65536"
    if "c \<in> set ?log" for c
    using rq [OF that] wire [OF that] by (simp add: read_request_def unat_ucast16)
  have wcons: "wire_origin (?log ! Suc i) = wire_origin (?log ! i) + wire_count (?log ! i)"
    if "Suc i < length ?log" for i
  proof -
    from that have "?log ! Suc i \<in> set ?log" "?log ! i \<in> set ?log"
      by simp_all
    then show ?thesis
      using cons [OF that] by (simp add: wire ucast16_add)
  qed
  have count: "unat (wire_count c) = unat (c_length c)"
    if "?M < 65536" "c \<in> set ?log" for c
  proof -
    from b [OF that(2)] have "c_length c \<le> ?M" by simp
    from this that(1) have "c_length c < 65536" by (rule order.strict_trans1)
    then show ?thesis
      using req [OF that(2)] by (simp add: unat_mod_id16)
  qed
  have origin: "unat (wire_origin c) = unat ?base + unat (c_offset c)"
    if small: "unat ?base + unat num_bcd16 \<le> 65536" and c: "c \<in> set ?log" for c
  proof -
    from span_mem [OF t c] hi have "unat (c_offset c) < unat num_bcd16"
      by simp
    with small have "unat ?base + unat (c_offset c) < 65536"
      by simp
    then have "unat (?base + c_offset c) mod 65536 = unat ?base + unat (c_offset c)"
      by (rule origin_exact)
    then show ?thesis
      using req [OF c] b [OF c] by simp
  qed
  have ocons: "unat (wire_origin (?log ! Suc i)) =
                unat (wire_origin (?log ! i)) + unat (c_length (?log ! i))"
    if small: "unat ?base + unat num_bcd16 \<le> 65536" and i: "Suc i < length ?log" for i
  proof -
    from i have mem: "?log ! Suc i \<in> set ?log" "?log ! i \<in> set ?log"
      by simp_all
    have "fst (map span ?log ! Suc i) = fst (map span ?log ! i) + snd (map span ?log ! i)"
      using t i by (intro tiles_consecutive) simp_all
    then have "unat (c_offset (?log ! Suc i)) =
        unat (c_offset (?log ! i)) + unat (c_length (?log ! i))"
      using i by (simp add: span_def)
    then show ?thesis
      by (simp add: origin [OF small mem(1)] origin [OF small mem(2)])
  qed
  have sum: "sum_list (map (unat \<circ> c_length) ?log) = unat num_bcd16"
    if "retval r = FINS_RETVAL_SUCCESS"
    using t ok [OF that] by (simp add: tiles_lengths)
  show ?thesis
  proof (intro exI [of _ r] exI [of _ d'] exI [of _ hi] conjI ballI allI impI)
    show "process_data env sys start (Some d) num_bcd16 ty = Some r" by (rule pd)
    show "out_data r = Some d'" by (rule od)
    show "tiles 0 (map span ?log) hi" by (rule t)
    show "hi \<le> unat num_bcd16" by (rule hi)
  qed (use b cons req wcons count origin ocons sum ok in \<open>simp_all\<close>)
qed

theorem chunks_cover_the_read_witness:
  "\<exists>r d'. process_data (demo_env 3 bcd_conv)
        (Some (demo_sys 4 Stream
           [(FINS_RETVAL_SUCCESS, first_reply), (FINS_RETVAL_SUCCESS, second_reply)]))
        (Some ''D100'') (Some blank) 5 0 = Some r
    \<and> retval r = FINS_RETVAL_SUCCESS \<and> out_data r = Some d'
    \<and> map span (out_log r) = [(0, 3), (3, 2)]
    \<and> map c_start (out_log r) = [100, 103]
    \<and> map request_bytes (out_log r) =
         [[0x82, 0x00, 0x64, 0x00, 0x00, 0x03], [0x82, 0x00, 0x67, 0x00, 0x00, 0x02]]
    \<and> map wire_origin (out_log r) = [100, 103]
    \<and> map wire_count (out_log r) = [3, 2]
    \<and> tiles 0 (map span (out_log r)) 5
    \<and> sum_list (map (unat \<circ> c_length) (out_log r)) = 5
    \<and> map d' [0, 1, 2, 3, 4, 5] = [1234, 7, 9999, 42, 5678, 0xFFFF]"
proof -
  let ?env = "demo_env 3 bcd_conv"
  let ?sys = "demo_sys 4 Stream
           [(FINS_RETVAL_SUCCESS, first_reply), (FINS_RETVAL_SUCCESS, second_reply)]"
  obtain r0 e1 e2 where
    pd: "process_data ?env (Some ?sys) (Some ''D100'') (Some blank) 5 0 = Some r0"
    and rv: "retval r0 = FINS_RETVAL_SUCCESS"
    and log: "out_log r0 = [e1, e2]"
    and e1: "c_offset e1 = 0" "c_length e1 = 3" "c_start e1 = 100"
      "body (c_reply e1) = reply_body first_reply"
    and e2: "c_offset e2 = 3" "c_length e2 = 2" "c_start e2 = 103"
      "body (c_reply e2) = reply_body second_reply"
    by (rule demo_two_chunks)
  have m: "0 < FINS_MAX_READ_WORDS_SYSWAY ?env" by simp
  have le: "loop_entry ?env (Some ?sys) (Some ''D100'') (Some blank) 5 =
     Some (demo_area,
           \<lparr>ls_sys = ?sys, ls_data = blank, ls_offset = 0, ls_todo = 5,
            ls_chunk_start = 100, ls_log = []\<rparr>)"
    by (rule demo_entry) simp
  from chunks_cover_the_read [OF m le, of 0] obtain r d' hi where
    pd': "process_data ?env (Some ?sys) (Some ''D100'') (Some blank) 5 0 = Some r"
    and od: "out_data r = Some d'"
    and t: "tiles 0 (map span (out_log r)) hi"
    and rq: "\<forall>c\<in>set (out_log r).
          c_bodylen c = 6
        \<and> request_bytes c =
            [area demo_area, ucast (drop_bit 8 (c_start c)), ucast (c_start c), 0x00,
             ucast (drop_bit 8 (c_length c)), ucast (c_length c)]
        \<and> (\<exists>s. header (c_cmnd c) = header (fst (XX_finslib_init_command ?env s 0x01 0x01)))
        \<and> unat (wire_origin c) = unat (c_start c) mod 65536
        \<and> unat (wire_count c) = unat (c_length c) mod 65536"
    and ok: "retval r = FINS_RETVAL_SUCCESS \<longrightarrow>
          hi = unat (5 :: size_t)
        \<and> sum_list (map (unat \<circ> c_length) (out_log r)) = unat (5 :: size_t)
        \<and> (\<forall>c\<in>set (out_log r). \<forall>a<c_length c.
              d' (unat (c_offset c) + unat a) =
                word_of_int (finslib_bcd_to_int ?env (wire_word (body (c_reply c)) a) 0))
        \<and> (\<forall>i\<ge>unat (5 :: size_t). d' i = blank i)"
    by blast
  from pd pd' have r: "r = r0" by simp
  from ok rv r have hi: "hi = 5"
    and sum: "sum_list (map (unat \<circ> c_length) (out_log r)) = 5"
    and words: "\<And>c a. c \<in> set (out_log r) \<Longrightarrow> a < c_length c \<Longrightarrow>
              d' (unat (c_offset c) + unat a) =
                word_of_int (bcd_conv (wire_word (body (c_reply c)) a) 0)"
    and rest: "\<And>i. 5 \<le> i \<Longrightarrow> d' i = blank i"
    by simp_all
  have "d' 0 = 1234" using words [of e1 0] by (simp add: r log e1 first_reply_words)
  moreover have "d' 1 = 7" using words [of e1 1] by (simp add: r log e1 first_reply_words)
  moreover have "d' 2 = 9999"
  proof -
    have "d' (Suc (Suc 0)) = 9999"
      using words [of e1 2] by (simp add: r log e1 first_reply_words)
    then show ?thesis by (simp only: numeral_2_eq_2)
  qed
  moreover have "d' 3 = 42" using words [of e2 0] by (simp add: r log e2 second_reply_words)
  moreover have "d' 4 = 5678" using words [of e2 1] by (simp add: r log e2 second_reply_words)
  moreover have "d' 5 = 0xFFFF" using rest [of 5] by (simp add: blank_def)
  moreover have "map span (out_log r) = [(0, 3), (3, 2)]"
    by (simp add: r log span_def e1 e2)
  moreover have "map c_start (out_log r) = [100, 103]"
    by (simp add: r log e1 e2)
  moreover have "request_bytes e1 = [0x82, 0x00, 0x64, 0x00, 0x00, 0x03]"
    "request_bytes e2 = [0x82, 0x00, 0x67, 0x00, 0x00, 0x02]"
    using rq by (simp_all add: r log e1 e2 demo_area_def drop_bit_eq_div)
  moreover have "wire_origin e1 = 100" "wire_origin e2 = 103" "wire_count e1 = 3" "wire_count e2 = 2"
    using rq by (simp_all add: r log e1 e2 word_unat_eq_iff)
  ultimately show ?thesis
    using pd' rv r od t hi sum log by (intro exI [of _ r] exI [of _ d']) simp
qed

section \<open>The limit on the length of a chunk\<close>

text \<open>
  Claim C3 says that the limit on a chunk is a property of the session's transport,
  smaller over datagram transport than over stream transport. Line 111 takes the one
  macro \<^verbatim>\<open>FINS_MAX_READ_WORDS_SYSWAY\<close> and never reads the session for it: with the macro
  at 3, a read of five elements is split into chunks of 3 and 2 elements on a datagram
  session exactly as on a stream session.
\<close>

theorem same_chunks_on_both_transports_counterexample:
  "map_option (\<lambda>r. map c_length (out_log r))
     (process_data (demo_env 3 bcd_conv)
        (Some (demo_sys 4 Datagram
           [(FINS_RETVAL_SUCCESS, first_reply), (FINS_RETVAL_SUCCESS, second_reply)]))
        (Some ''D100'') (Some blank) 5 0) = Some [3, 2]
   \<and> map_option (\<lambda>r. map c_length (out_log r))
     (process_data (demo_env 3 bcd_conv)
        (Some (demo_sys 4 Stream
           [(FINS_RETVAL_SUCCESS, first_reply), (FINS_RETVAL_SUCCESS, second_reply)]))
        (Some ''D100'') (Some blank) 5 0) = Some [3, 2]
   \<and> transport (demo_sys 4 Datagram
           [(FINS_RETVAL_SUCCESS, first_reply), (FINS_RETVAL_SUCCESS, second_reply)]) = Datagram
   \<and> transport (demo_sys 4 Stream
           [(FINS_RETVAL_SUCCESS, first_reply), (FINS_RETVAL_SUCCESS, second_reply)]) = Stream"
proof -
  have "map_option (\<lambda>r. map c_length (out_log r))
     (process_data (demo_env 3 bcd_conv)
        (Some (demo_sys 4 kind
           [(FINS_RETVAL_SUCCESS, first_reply), (FINS_RETVAL_SUCCESS, second_reply)]))
        (Some ''D100'') (Some blank) 5 0) = Some [3, 2]" for kind
  proof -
    obtain r e1 e2 where
      "process_data (demo_env 3 bcd_conv)
        (Some (demo_sys 4 kind
           [(FINS_RETVAL_SUCCESS, first_reply), (FINS_RETVAL_SUCCESS, second_reply)]))
        (Some ''D100'') (Some blank) 5 0 = Some r"
      "out_log r = [e1, e2]" "c_length e1 = 3" "c_length e2 = 2"
      by (rule demo_two_chunks)
    then show ?thesis by simp
  qed
  then show ?thesis by (simp add: demo_sys_def)
qed

text \<open>
  Claim C3, amended. Whatever the session and its transport, \<^verbatim>\<open>process_data\<close> returns and
  every chunk it has issued has at most \<^verbatim>\<open>FINS_MAX_READ_WORDS_SYSWAY\<close> elements, one
  constant for all sessions; the first chunk has exactly the smaller of that constant
  and the element count of the read.
\<close>

theorem chunk_limit_is_one_constant:
  assumes m: "0 < FINS_MAX_READ_WORDS_SYSWAY env"
  shows "\<exists>r. process_data env sys start data num_bcd16 ty = Some r
      \<and> (\<forall>c\<in>set (out_log r). c_length c \<le> FINS_MAX_READ_WORDS_SYSWAY env)
      \<and> (out_log r \<noteq> [] \<longrightarrow>
            c_length (hd (out_log r)) =
              (if FINS_MAX_READ_WORDS_SYSWAY env > num_bcd16 then num_bcd16
               else FINS_MAX_READ_WORDS_SYSWAY env))"
proof (cases "loop_entry env sys start data num_bcd16")
  case None
  then obtain rv where "process_data env sys start data num_bcd16 ty = Some (early rv sys data)"
    using loop_entry_None by blast
  then show ?thesis by (simp add: early_def)
next
  case (Some entry)
  obtain area_ptr st0 where e: "entry = (area_ptr, st0)" by (rule prod.exhaust)
  from Some obtain d where d: "data = Some d"
    unfolding e by (rule loop_entry_SomeD)
  have le: "loop_entry env sys start (Some d) num_bcd16 = Some (area_ptr, st0)"
    using Some by (simp add: e d)
  have ncl: "next_chunk_length env num_bcd16 =
              (if FINS_MAX_READ_WORDS_SYSWAY env > num_bcd16 then num_bcd16
               else FINS_MAX_READ_WORDS_SYSWAY env)"
    by (simp add: next_chunk_length_def Let_def)
  from m le show ?thesis
  proof (cases rule: read_result_cases [where ty = ty])
    case (failed k st rv st')
    from m failed(1) obtain st1 where
      "loop_entry env sys start (Some d) num_bcd16 = Some (area_ptr, st1)"
      and inv: "loop_inv env ty num_bcd16 (ls_chunk_start st1) d st" and pos: "0 < ls_todo st"
      and "length (ls_log st) = k"
      by (rule pass_state_inv)
    note fp = failed_pass [OF inv m pos failed(2)]
    have "out_log (finish rv st') = ls_log st'" by (simp add: finish_def)
    with failed(3) fp(2) fp(7) show ?thesis
      by (simp add: d ncl)
  next
    case (complete k st st')
    from m complete(1) obtain st1 where
      "loop_entry env sys start (Some d) num_bcd16 = Some (area_ptr, st1)"
      and inv: "loop_inv env ty num_bcd16 (ls_chunk_start st1) d st" and pos: "0 < ls_todo st"
      and "length (ls_log st) = k"
      by (rule pass_state_inv)
    have "loop_inv env ty num_bcd16 (ls_chunk_start st1) d st'"
      using inv m pos complete(2) by (rule loop_inv_step)
    then have i4: "\<And>c. c \<in> set (ls_log st') \<Longrightarrow> c_length c \<le> FINS_MAX_READ_WORDS_SYSWAY env"
      and i7: "ls_log st' \<noteq> [] \<Longrightarrow> c_length (hd (ls_log st')) = next_chunk_length env num_bcd16"
      by (simp_all add: loop_inv_def)
    have "out_log (finish FINS_RETVAL_SUCCESS st') = ls_log st'" by (simp add: finish_def)
    with complete(4) i4 i7 show ?thesis
      by (simp add: d ncl)
  qed
qed

theorem chunk_limit_is_one_constant_witness:
  "\<exists>r. process_data (demo_env 3 bcd_conv)
        (Some (demo_sys 4 Datagram
           [(FINS_RETVAL_SUCCESS, first_reply), (FINS_RETVAL_SUCCESS, second_reply)]))
        (Some ''D100'') (Some blank) 5 0 = Some r
    \<and> map c_length (out_log r) = [3, 2]
    \<and> c_length (hd (out_log r)) = FINS_MAX_READ_WORDS_SYSWAY (demo_env 3 bcd_conv)
    \<and> list_all (\<lambda>c. c_length c \<le> FINS_MAX_READ_WORDS_SYSWAY (demo_env 3 bcd_conv)) (out_log r)"
proof -
  let ?env = "demo_env 3 bcd_conv"
  let ?sys = "demo_sys 4 Datagram
           [(FINS_RETVAL_SUCCESS, first_reply), (FINS_RETVAL_SUCCESS, second_reply)]"
  obtain r0 e1 e2 where
    pd: "process_data ?env (Some ?sys) (Some ''D100'') (Some blank) 5 0 = Some r0"
    and log: "out_log r0 = [e1, e2]" and len: "c_length e1 = 3" "c_length e2 = 2"
    by (rule demo_two_chunks)
  have m: "0 < FINS_MAX_READ_WORDS_SYSWAY ?env" by simp
  from chunk_limit_is_one_constant [OF m, of "Some ?sys" "Some ''D100''" "Some blank" 5 0]
  obtain r where
    pd': "process_data ?env (Some ?sys) (Some ''D100'') (Some blank) 5 0 = Some r"
    and all: "\<forall>c\<in>set (out_log r). c_length c \<le> FINS_MAX_READ_WORDS_SYSWAY ?env"
    and first: "out_log r \<noteq> [] \<longrightarrow>
            c_length (hd (out_log r)) =
              (if FINS_MAX_READ_WORDS_SYSWAY ?env > 5 then 5
               else FINS_MAX_READ_WORDS_SYSWAY ?env)"
    by blast
  from pd pd' have r: "r = r0" by simp
  have "c_length (hd (out_log r)) = FINS_MAX_READ_WORDS_SYSWAY ?env"
    using first by (simp add: r log)
  moreover have "list_all (\<lambda>c. c_length c \<le> FINS_MAX_READ_WORDS_SYSWAY ?env) (out_log r)"
    using all by (simp only: list_all_iff)
  moreover have "map c_length (out_log r) = [3, 2]"
    by (simp add: r log len)
  ultimately show ?thesis
    using pd' by (intro exI [of _ r]) simp
qed

section \<open>A response that is too short\<close>

text \<open>
  Claim C4. Let pass \<open>k\<close> of a read start in state \<open>st\<close>, let its exchange return
  success with a response body of fewer than \<^verbatim>\<open>2 + 2*chunk_length\<close> bytes (the expected
  length does not wrap in \<^verbatim>\<open>size_t\<close>: the macro \<^verbatim>\<open>FINS_MAX_READ_WORDS_SYSWAY\<close> is not absurdly
  large). Then the read returns \<^verbatim>\<open>FINS_RETVAL_BODY_TOO_SHORT\<close>, and the output array is the
  one the pass started with: no word of this chunk is stored, and from the offset of
  this chunk on the array is still as the caller passed it.
\<close>

theorem short_reply_writes_nothing:
  assumes m: "0 < FINS_MAX_READ_WORDS_SYSWAY env"
    and nowrap: "2 + 2 * unat (FINS_MAX_READ_WORDS_SYSWAY env) < 2 ^ 64"
    and ps: "pass_state env sys start (Some d) num_bcd16 ty k = Some (area_ptr, st)"
    and ex: "exchange env area_ptr st = (FINS_RETVAL_SUCCESS, sys', reply, replylen)"
    and short: "unat replylen < 2 + 2 * unat (next_chunk_length env (ls_todo st))"
  shows "\<exists>r. process_data env sys start (Some d) num_bcd16 ty = Some r
      \<and> retval r = FINS_RETVAL_BODY_TOO_SHORT
      \<and> out_data r = Some (ls_data st)
      \<and> (\<forall>i\<ge>unat (ls_offset st). ls_data st i = d i)"
proof -
  let ?cl = "next_chunk_length env (ls_todo st)"
  have "unat (2 + 2 * ?cl) = 2 + 2 * unat ?cl"
    using next_chunk_length_le_max nowrap by (rule expected_length_no_wrap)
  with short have ne: "replylen \<noteq> 2 + 2 * ?cl"
    by auto
  have pd: "process_data env sys start (Some d) num_bcd16 ty =
          Some (finish FINS_RETVAL_BODY_TOO_SHORT (logged env area_ptr st))"
    using failing_pass_result [OF ps ex] ne by simp
  from m ps obtain st0 where
    "loop_entry env sys start (Some d) num_bcd16 = Some (area_ptr, st0)"
    and inv: "loop_inv env ty num_bcd16 (ls_chunk_start st0) d st" and "0 < ls_todo st"
    and "length (ls_log st) = k"
    by (rule pass_state_inv)
  from inv have "\<forall>i\<ge>unat (ls_offset st). ls_data st i = d i"
    by (simp add: loop_inv_def)
  then show ?thesis
    by (simp add: pd finish_def logged_data)
qed

theorem short_reply_writes_nothing_witness:
  "\<exists>r d'. process_data (demo_env 3 bcd_conv)
        (Some (demo_sys 4 Stream
           [(FINS_RETVAL_SUCCESS, first_reply), (FINS_RETVAL_SUCCESS, short_reply)]))
        (Some ''D100'') (Some blank) 5 0 = Some r
    \<and> retval r = FINS_RETVAL_BODY_TOO_SHORT \<and> out_data r = Some d'
    \<and> d' 3 = 0xFFFF \<and> d' 4 = 0xFFFF \<and> d' 5 = 0xFFFF"
proof -
  let ?env = "demo_env 3 bcd_conv"
  let ?sys = "demo_sys 4 Stream
           [(FINS_RETVAL_SUCCESS, first_reply), (FINS_RETVAL_SUCCESS, short_reply)]"
  obtain st1 e1 where
    ps: "pass_state ?env (Some ?sys) (Some ''D100'') (Some blank) 5 0 1 = Some (demo_area, st1)"
    and sys1: "ls_sys st1 = demo_sys 4 Stream [(FINS_RETVAL_SUCCESS, short_reply)]"
    and todo1: "ls_todo st1 = 2" and off1: "ls_offset st1 = 3"
    by (rule demo_first_chunk)
  have m: "0 < FINS_MAX_READ_WORDS_SYSWAY ?env" by simp
  have nowrap: "2 + 2 * unat (FINS_MAX_READ_WORDS_SYSWAY ?env) < 2 ^ 64" by simp
  have ex: "exchange ?env demo_area st1 =
     (FINS_RETVAL_SUCCESS, demo_sys 4 Stream [], \<lparr>header = [1, 1], body = reply_body short_reply\<rparr>,
      of_nat (length short_reply))"
    using sys1 by (rule demo_exchange)
  have short: "unat (of_nat (length short_reply) :: size_t)
                 < 2 + 2 * unat (next_chunk_length ?env (ls_todo st1))"
    by (simp add: short_reply_def todo1 next_chunk_length_def)
  from short_reply_writes_nothing [OF m nowrap ps ex short] obtain r where
    pd: "process_data ?env (Some ?sys) (Some ''D100'') (Some blank) 5 0 = Some r"
    and rv: "retval r = FINS_RETVAL_BODY_TOO_SHORT"
    and od: "out_data r = Some (ls_data st1)"
    and rest: "\<forall>i\<ge>unat (ls_offset st1). ls_data st1 i = blank i"
    by blast
  from rest have "ls_data st1 3 = 0xFFFF" "ls_data st1 4 = 0xFFFF" "ls_data st1 5 = 0xFFFF"
    by (simp_all add: off1 blank_def)
  with pd rv od show ?thesis
    by (intro exI [of _ r] exI [of _ "ls_data st1"]) simp
qed

section \<open>A failure in the middle of a read\<close>

text \<open>
  Claim C5. Chunked reads are not atomic. Let pass \<open>k\<close> of a read start in state \<open>st\<close>
  and let its exchange fail: \<^verbatim>\<open>XX_finslib_communicate\<close> returns a code other than success, or
  the response has not the expected length. Then the read returns at once with that
  code (\<^verbatim>\<open>FINS_RETVAL_BODY_TOO_SHORT\<close> for a wrong length): the log has \<open>k + 1\<close> exchanges,
  the failed one last. The output array is the one the pass started with: the \<open>k\<close>
  chunks before lie end to end from position 0 to the offset of the failed chunk, each
  was answered with success, every element of each of them is in the array as
  converted, and the rest of the array is as the caller passed it. Nothing is rolled
  back or cleared.
\<close>

theorem failure_keeps_earlier_chunks:
  assumes m: "0 < FINS_MAX_READ_WORDS_SYSWAY env"
    and ps: "pass_state env sys start (Some d) num_bcd16 ty k = Some (area_ptr, st)"
    and ex: "exchange env area_ptr st = (rv, sys', reply, replylen)"
    and bad: "rv \<noteq> FINS_RETVAL_SUCCESS \<or> replylen \<noteq> 2 + 2 * next_chunk_length env (ls_todo st)"
  shows "\<exists>r. process_data env sys start (Some d) num_bcd16 ty = Some r
      \<and> retval r = (if rv \<noteq> FINS_RETVAL_SUCCESS then rv else FINS_RETVAL_BODY_TOO_SHORT)
      \<and> length (out_log r) = Suc k
      \<and> take k (out_log r) = ls_log st
      \<and> out_data r = Some (ls_data st)
      \<and> tiles 0 (map span (take k (out_log r))) (unat (ls_offset st))
      \<and> (\<forall>c\<in>set (take k (out_log r)).
            c_retval c = FINS_RETVAL_SUCCESS \<and> c_replylen c = 2 + 2 * c_length c
          \<and> (\<forall>a<c_length c.
                ls_data st (unat (c_offset c) + unat a) =
                  word_of_int (finslib_bcd_to_int env (wire_word (body (c_reply c)) a) ty)))
      \<and> (\<forall>i\<ge>unat (ls_offset st). ls_data st i = d i)"
proof -
  let ?r = "finish (if rv \<noteq> FINS_RETVAL_SUCCESS then rv else FINS_RETVAL_BODY_TOO_SHORT)
              (logged env area_ptr st)"
  have pd: "process_data env sys start (Some d) num_bcd16 ty = Some ?r"
    using ps ex bad by (rule failing_pass_result)
  from m ps obtain st0 where
    "loop_entry env sys start (Some d) num_bcd16 = Some (area_ptr, st0)"
    and inv: "loop_inv env ty num_bcd16 (ls_chunk_start st0) d st" and "0 < ls_todo st"
    and len: "length (ls_log st) = k"
    by (rule pass_state_inv)
  have tk: "take k (out_log ?r) = ls_log st"
    using logged_log [of st env area_ptr] by (simp add: finish_def len)
  from inv have
    i3: "tiles 0 (map span (ls_log st)) (unat (ls_offset st))"
    and i4: "\<forall>c\<in>set (ls_log st).
         c_retval c = FINS_RETVAL_SUCCESS \<and> c_replylen c = 2 + 2 * c_length c"
    and i5: "\<forall>c\<in>set (ls_log st). \<forall>a<c_length c.
         ls_data st (unat (c_offset c) + unat a) =
           word_of_int (finslib_bcd_to_int env (wire_word (body (c_reply c)) a) ty)"
    and i6: "\<forall>i\<ge>unat (ls_offset st). ls_data st i = d i"
    by (simp_all add: loop_inv_def)
  have r1: "retval ?r = (if rv \<noteq> FINS_RETVAL_SUCCESS then rv else FINS_RETVAL_BODY_TOO_SHORT)"
    and r2: "length (out_log ?r) = Suc k" and r3: "out_data ?r = Some (ls_data st)"
    by (simp_all add: finish_def len logged_data logged_log_length)
  show ?thesis
  proof (intro exI [of _ ?r] conjI)
    show "process_data env sys start (Some d) num_bcd16 ty = Some ?r" by (rule pd)
    show "retval ?r = (if rv \<noteq> FINS_RETVAL_SUCCESS then rv else FINS_RETVAL_BODY_TOO_SHORT)"
      by (rule r1)
    show "length (out_log ?r) = Suc k" by (rule r2)
    show "take k (out_log ?r) = ls_log st" by (rule tk)
    show "out_data ?r = Some (ls_data st)" by (rule r3)
    show "tiles 0 (map span (take k (out_log ?r))) (unat (ls_offset st))"
      using i3 by (simp only: tk)
    show "\<forall>c\<in>set (take k (out_log ?r)).
            c_retval c = FINS_RETVAL_SUCCESS \<and> c_replylen c = 2 + 2 * c_length c
          \<and> (\<forall>a<c_length c.
                ls_data st (unat (c_offset c) + unat a) =
                  word_of_int (finslib_bcd_to_int env (wire_word (body (c_reply c)) a) ty))"
      using i4 i5 unfolding tk by blast
    show "\<forall>i\<ge>unat (ls_offset st). ls_data st i = d i" by (rule i6)
  qed
qed

theorem failure_keeps_earlier_chunks_witness:
  "\<exists>r d'. process_data (demo_env 3 bcd_conv)
        (Some (demo_sys 4 Stream
           [(FINS_RETVAL_SUCCESS, first_reply), (FINS_RETVAL_OTHER 1, [])]))
        (Some ''D100'') (Some blank) 5 0 = Some r
    \<and> retval r = FINS_RETVAL_OTHER 1 \<and> length (out_log r) = 2 \<and> out_data r = Some d'
    \<and> map d' [0, 1, 2, 3, 4] = [1234, 7, 9999, 0xFFFF, 0xFFFF]"
proof -
  let ?env = "demo_env 3 bcd_conv"
  let ?sys = "demo_sys 4 Stream
           [(FINS_RETVAL_SUCCESS, first_reply), (FINS_RETVAL_OTHER 1, [])]"
  obtain st1 e1 where
    ps: "pass_state ?env (Some ?sys) (Some ''D100'') (Some blank) 5 0 1 = Some (demo_area, st1)"
    and sys1: "ls_sys st1 = demo_sys 4 Stream [(FINS_RETVAL_OTHER 1, [])]"
    and off1: "ls_offset st1 = 3" and log1: "ls_log st1 = [e1]"
    and e1: "c_offset e1 = 0" "c_length e1 = 3"
      "body (c_reply e1) = reply_body first_reply"
    by (rule demo_first_chunk)
  have m: "0 < FINS_MAX_READ_WORDS_SYSWAY ?env" by simp
  have ex: "exchange ?env demo_area st1 =
     (FINS_RETVAL_OTHER 1, demo_sys 4 Stream [], \<lparr>header = [1, 1], body = reply_body []\<rparr>,
      of_nat (length ([] :: byte list)))"
    using sys1 by (rule demo_exchange)
  have bad: "FINS_RETVAL_OTHER 1 \<noteq> FINS_RETVAL_SUCCESS
      \<or> of_nat (length ([] :: byte list)) \<noteq> 2 + 2 * next_chunk_length ?env (ls_todo st1)"
    by simp
  from failure_keeps_earlier_chunks [OF m ps ex bad] obtain r where
    pd: "process_data ?env (Some ?sys) (Some ''D100'') (Some blank) 5 0 = Some r"
    and rv: "retval r = FINS_RETVAL_OTHER 1"
    and len: "length (out_log r) = Suc 1"
    and tk: "take 1 (out_log r) = ls_log st1"
    and od: "out_data r = Some (ls_data st1)"
    and words: "\<forall>c\<in>set (take 1 (out_log r)).
            c_retval c = FINS_RETVAL_SUCCESS \<and> c_replylen c = 2 + 2 * c_length c
          \<and> (\<forall>a<c_length c.
                ls_data st1 (unat (c_offset c) + unat a) =
                  word_of_int (finslib_bcd_to_int ?env (wire_word (body (c_reply c)) a) 0))"
    and rest: "\<forall>i\<ge>unat (ls_offset st1). ls_data st1 i = blank i"
    by auto
  from words [unfolded tk log1] have w: "\<And>a. a < 3 \<Longrightarrow>
       ls_data st1 (unat a) = word_of_int (bcd_conv (wire_word (reply_body first_reply) a) 0)"
    by (simp add: e1)
  have "ls_data st1 0 = 1234" using w [of 0] by (simp add: first_reply_words)
  moreover have "ls_data st1 1 = 7" using w [of 1] by (simp add: first_reply_words)
  moreover have "ls_data st1 2 = 9999" using w [of 2] by (simp add: first_reply_words)
  moreover from rest have "ls_data st1 3 = 0xFFFF" "ls_data st1 4 = 0xFFFF"
    by (simp_all add: off1 blank_def)
  ultimately show ?thesis
    using pd rv len od by (intro exI [of _ r] exI [of _ "ls_data st1"]) simp
qed

section \<open>Failures found before any I/O\<close>

text \<open>
  As claim C6 states it, a session that is not connected always yields
  \<^verbatim>\<open>FINS_RETVAL_NOT_CONNECTED\<close>. The tests of lines 94-98 run in a fixed order, and the
  test of the socket is the fifth: on an unconnected session a read of zero elements
  returns \<^verbatim>\<open>FINS_RETVAL_SUCCESS\<close>, a read without an address text returns
  \<^verbatim>\<open>FINS_RETVAL_NO_READ_ADDRESS\<close> and a read without a data array returns
  \<^verbatim>\<open>FINS_RETVAL_NO_DATA_BLOCK\<close>.
\<close>

theorem unconnected_zero_count_counterexample:
  "sockfd (demo_sys (- 1) Stream []) = INVALID_SOCKET (demo_env 3 (\<lambda>w t. 0))
   \<and> map_option retval
        (process_data (demo_env 3 (\<lambda>w t. 0)) (Some (demo_sys (- 1) Stream []))
           (Some ''D100'') (Some (\<lambda>i. 0)) 0 0) = Some FINS_RETVAL_SUCCESS
   \<and> map_option retval
        (process_data (demo_env 3 (\<lambda>w t. 0)) (Some (demo_sys (- 1) Stream []))
           None (Some (\<lambda>i. 0)) 5 0) = Some FINS_RETVAL_NO_READ_ADDRESS
   \<and> map_option retval
        (process_data (demo_env 3 (\<lambda>w t. 0)) (Some (demo_sys (- 1) Stream []))
           (Some ''D100'') None 5 0) = Some FINS_RETVAL_NO_DATA_BLOCK"
  by (simp add: process_data_def early_def demo_env_def demo_sys_def)

text \<open>
  Claim C6, amended. For a read of at least one element with a session, an address text
  and a data array that are not \<^verbatim>\<open>NULL\<close>: a session whose socket is
  \<^verbatim>\<open>INVALID_SOCKET\<close> yields \<^verbatim>\<open>FINS_RETVAL_NOT_CONNECTED\<close>; on a connected session an address
  text that \<^verbatim>\<open>XX_finslib_decode_address\<close> cannot parse yields
  \<^verbatim>\<open>FINS_RETVAL_INVALID_READ_ADDRESS\<close>; and a parsed address for which
  \<^verbatim>\<open>XX_finslib_search_area\<close> finds no area readable in 16 bits yields
  \<^verbatim>\<open>FINS_RETVAL_INVALID_READ_AREA\<close>. In \<^verbatim>\<open>finslib_name_set\<close> a session that is not \<^verbatim>\<open>NULL\<close>
  and whose socket is \<^verbatim>\<open>INVALID_SOCKET\<close> yields \<^verbatim>\<open>FINS_RETVAL_NOT_CONNECTED\<close>. In each case
  no transport I/O has taken place (the log is empty) and the session and the output
  array are unchanged.
\<close>

theorem precondition_failures_before_io:
  assumes "num_bcd16 \<noteq> 0"
  shows
    "(sockfd s = INVALID_SOCKET env \<longrightarrow>
        process_data env (Some s) (Some addr_text) (Some d) num_bcd16 ty =
          Some \<lparr>retval = FINS_RETVAL_NOT_CONNECTED, out_sys = Some s, out_data = Some d,
                out_log = []\<rparr>)
     \<and> (sockfd s \<noteq> INVALID_SOCKET env \<and> XX_finslib_decode_address env addr_text = None \<longrightarrow>
        process_data env (Some s) (Some addr_text) (Some d) num_bcd16 ty =
          Some \<lparr>retval = FINS_RETVAL_INVALID_READ_ADDRESS, out_sys = Some s, out_data = Some d,
                out_log = []\<rparr>)
     \<and> (sockfd s \<noteq> INVALID_SOCKET env \<and> XX_finslib_decode_address env addr_text = Some address
          \<and> XX_finslib_search_area env s address 16 (FI_RD env) False = None \<longrightarrow>
        process_data env (Some s) (Some addr_text) (Some d) num_bcd16 ty =
          Some \<lparr>retval = FINS_RETVAL_INVALID_READ_AREA, out_sys = Some s, out_data = Some d,
                out_log = []\<rparr>)
     \<and> (sockfd s = INVALID_SOCKET env \<longrightarrow>
        finslib_name_set env (Some s) name =
          \<lparr>n_retval = FINS_RETVAL_NOT_CONNECTED, n_sys = Some s, n_log = []\<rparr>)"
  using assms by (simp add: process_data_def early_def finslib_name_set_def)

theorem precondition_failures_before_io_witness:
  "process_data (demo_env 3 (\<lambda>w t. 0)) (Some (demo_sys (- 1) Datagram [])) (Some ''D100'')
       (Some (\<lambda>i. 7)) 5 0 =
     Some \<lparr>retval = FINS_RETVAL_NOT_CONNECTED, out_sys = Some (demo_sys (- 1) Datagram []),
           out_data = Some (\<lambda>i. 7), out_log = []\<rparr>
   \<and> process_data (demo_env 3 (\<lambda>w t. 0)) (Some (demo_sys 4 Stream [])) (Some ''100D'')
       (Some (\<lambda>i. 7)) 5 0 =
     Some \<lparr>retval = FINS_RETVAL_INVALID_READ_ADDRESS, out_sys = Some (demo_sys 4 Stream []),
           out_data = Some (\<lambda>i. 7), out_log = []\<rparr>
   \<and> process_data (demo_env 3 (\<lambda>w t. 0)) (Some (demo_sys 4 Stream [])) (Some ''Q7'')
       (Some (\<lambda>i. 7)) 5 0 =
     Some \<lparr>retval = FINS_RETVAL_INVALID_READ_AREA, out_sys = Some (demo_sys 4 Stream []),
           out_data = Some (\<lambda>i. 7), out_log = []\<rparr>
   \<and> finslib_name_set (demo_env 3 (\<lambda>w t. 0)) (Some (demo_sys (- 1) Stream [])) (Some ''PLC'') =
     \<lparr>n_retval = FINS_RETVAL_NOT_CONNECTED, n_sys = Some (demo_sys (- 1) Stream []), n_log = []\<rparr>"
proof -
  let ?env = "demo_env 3 (\<lambda>w t. 0)"
  have n: "(5 :: size_t) \<noteq> 0" by simp
  have a: "sockfd (demo_sys (- 1) Datagram []) = INVALID_SOCKET ?env"
    by (simp add: demo_env_def demo_sys_def)
  have b: "sockfd (demo_sys 4 Stream []) \<noteq> INVALID_SOCKET ?env
           \<and> XX_finslib_decode_address ?env ''100D'' = None"
    by (simp add: demo_env_def demo_sys_def)
  have c: "sockfd (demo_sys 4 Stream []) \<noteq> INVALID_SOCKET ?env
           \<and> XX_finslib_decode_address ?env ''Q7'' = Some \<lparr>main_address = 7, sub_address = 0\<rparr>
           \<and> XX_finslib_search_area ?env (demo_sys 4 Stream [])
                \<lparr>main_address = 7, sub_address = 0\<rparr> 16 (FI_RD ?env) False = None"
    by (simp add: demo_env_def demo_sys_def)
  have e: "sockfd (demo_sys (- 1) Stream []) = INVALID_SOCKET ?env"
    by (simp add: demo_env_def demo_sys_def)
  from precondition_failures_before_io [where s = "demo_sys (- 1) Datagram []" and env = ?env
      and addr_text = "''D100''" and d = "\<lambda>i. 7" and ty = 0, OF n]
    a
  have 1: "process_data ?env (Some (demo_sys (- 1) Datagram [])) (Some ''D100'')
       (Some (\<lambda>i. 7)) 5 0 =
     Some \<lparr>retval = FINS_RETVAL_NOT_CONNECTED, out_sys = Some (demo_sys (- 1) Datagram []),
           out_data = Some (\<lambda>i. 7), out_log = []\<rparr>"
    by blast
  from precondition_failures_before_io [where s = "demo_sys 4 Stream []" and env = ?env
      and addr_text = "''100D''" and d = "\<lambda>i. 7" and ty = 0, OF n] b
  have 2: "process_data ?env (Some (demo_sys 4 Stream [])) (Some ''100D'')
       (Some (\<lambda>i. 7)) 5 0 =
     Some \<lparr>retval = FINS_RETVAL_INVALID_READ_ADDRESS, out_sys = Some (demo_sys 4 Stream []),
           out_data = Some (\<lambda>i. 7), out_log = []\<rparr>"
    by blast
  from precondition_failures_before_io [where s = "demo_sys 4 Stream []" and env = ?env
      and addr_text = "''Q7''" and address = "\<lparr>main_address = 7, sub_address = 0\<rparr>"
      and d = "\<lambda>i. 7" and ty = 0, OF n] c
  have 3: "process_data ?env (Some (demo_sys 4 Stream [])) (Some ''Q7'')
       (Some (\<lambda>i. 7)) 5 0 =
     Some \<lparr>retval = FINS_RETVAL_INVALID_READ_AREA, out_sys = Some (demo_sys 4 Stream []),
           out_data = Some (\<lambda>i. 7), out_log = []\<rparr>"
    by blast
  from precondition_failures_before_io [where s = "demo_sys (- 1) Stream []" and env = ?env
      and name = "Some ''PLC''", OF n] e
  have 4: "finslib_name_set ?env (Some (demo_sys (- 1) Stream [])) (Some ''PLC'') =
     \<lparr>n_retval = FINS_RETVAL_NOT_CONNECTED, n_sys = Some (demo_sys (- 1) Stream []), n_log = []\<rparr>"
    by blast
  from 1 2 3 4 show ?thesis by simp
qed

section \<open>A read of zero elements\<close>

text \<open>
  Claim C7. A call of \<^verbatim>\<open>process_data\<close> with \<^verbatim>\<open>num_bcd16 = 0\<close> returns
  \<^verbatim>\<open>FINS_RETVAL_SUCCESS\<close> and performs no transport I/O (the log is empty, the session and
  the output array are as they were), whatever the other arguments are: a \<^verbatim>\<open>NULL\<close>
  session, address text or data pointer and an unconnected socket included, since the
  test of line 94 comes first. The same holds for the two public entry points.
\<close>

theorem zero_count_succeeds:
  "process_data env sys start data 0 ty =
     Some \<lparr>retval = FINS_RETVAL_SUCCESS, out_sys = sys, out_data = data, out_log = []\<rparr>
   \<and> finslib_memory_area_read_bcd16 env sys start data 0 =
     Some \<lparr>retval = FINS_RETVAL_SUCCESS, out_sys = sys, out_data = data, out_log = []\<rparr>
   \<and> finslib_memory_area_read_sbcd16 env sys start data 0 ty =
     Some \<lparr>retval = FINS_RETVAL_SUCCESS, out_sys = sys, out_data = data, out_log = []\<rparr>"
  by (simp add: process_data_def finslib_memory_area_read_bcd16_def
        finslib_memory_area_read_sbcd16_def early_def)

section \<open>Setting the name\<close>

text \<open>
  Claim C8. On a connected session \<^verbatim>\<open>finslib_name_set\<close> makes one exchange, and the command
  body it sends holds the characters of the name before its first NUL, cut to the first
  eight: at most 8 bytes, and exactly the first eight characters of a longer name (of a
  12-character name, say). Nothing reports the cut: when the exchange returns success
  with a response body of 2 bytes the function returns \<^verbatim>\<open>FINS_RETVAL_SUCCESS\<close>. A \<^verbatim>\<open>NULL\<close>
  name is not an empty write: the function returns \<^verbatim>\<open>FINS_RETVAL_NO_DATA_BLOCK\<close> without
  any exchange.
\<close>

theorem name_is_truncated_to_8_bytes:
  assumes c: "sockfd s \<noteq> INVALID_SOCKET env"
  shows "(\<exists>x. n_log (finslib_name_set env (Some s) (Some nm)) = [x]
            \<and> sent_bytes x = map of_char (take 8 (takeWhile (\<lambda>ch. ch \<noteq> CHR 0x00) nm))
            \<and> length (sent_bytes x) \<le> 8
            \<and> (CHR 0x00 \<notin> set nm \<longrightarrow> sent_bytes x = map of_char (take 8 nm)))
       \<and> (name_exchange env s nm = (FINS_RETVAL_SUCCESS, s', reply, 2) \<longrightarrow>
            n_retval (finslib_name_set env (Some s) (Some nm)) = FINS_RETVAL_SUCCESS)
       \<and> finslib_name_set env (Some s) None =
            \<lparr>n_retval = FINS_RETVAL_NO_DATA_BLOCK, n_sys = Some s, n_log = []\<rparr>"
proof (intro conjI impI)
  let ?x = "\<lparr>x_cmnd = fst (name_command env s nm), x_bodylen = snd (name_command env s nm)\<rparr>"
  obtain rv s1 rep replen where nx: "name_exchange env s nm = (rv, s1, rep, replen)"
    by (rule prod_cases4)
  have log: "n_log (finslib_name_set env (Some s) (Some nm)) = [?x]"
    by (simp add: name_set_eq [OF c nx])
  have bytes: "sent_bytes ?x = map of_char (take 8 (takeWhile (\<lambda>ch. ch \<noteq> CHR 0x00) nm))"
    by (rule name_command_bytes)
  have len: "length (sent_bytes ?x) \<le> 8"
    by (simp add: bytes)
  have whole: "sent_bytes ?x = map of_char (take 8 nm)" if "CHR 0x00 \<notin> set nm"
  proof -
    from that have tw: "takeWhile (\<lambda>ch. ch \<noteq> CHR 0x00) nm = nm"
      by (auto simp: takeWhile_eq_all_conv)
    show ?thesis unfolding bytes tw by (rule refl)
  qed
  show "\<exists>x. n_log (finslib_name_set env (Some s) (Some nm)) = [x]
            \<and> sent_bytes x = map of_char (take 8 (takeWhile (\<lambda>ch. ch \<noteq> CHR 0x00) nm))
            \<and> length (sent_bytes x) \<le> 8
            \<and> (CHR 0x00 \<notin> set nm \<longrightarrow> sent_bytes x = map of_char (take 8 nm))"
    using log bytes len whole by blast
next
  assume "name_exchange env s nm = (FINS_RETVAL_SUCCESS, s', reply, 2)"
  then show "n_retval (finslib_name_set env (Some s) (Some nm)) = FINS_RETVAL_SUCCESS"
    by (simp add: name_set_eq [OF c])
next
  show "finslib_name_set env (Some s) None =
            \<lparr>n_retval = FINS_RETVAL_NO_DATA_BLOCK, n_sys = Some s, n_log = []\<rparr>"
    using c by (simp add: finslib_name_set_def)
qed

theorem name_is_truncated_to_8_bytes_witness:
  "(\<exists>x. n_log (finslib_name_set (demo_env 3 bcd_conv)
              (Some (demo_sys 4 Stream [(FINS_RETVAL_SUCCESS, [0, 0])])) (Some ''ABCDEFGHIJKL'')) = [x]
        \<and> sent_bytes x = map of_char ''ABCDEFGH'')
   \<and> n_retval (finslib_name_set (demo_env 3 bcd_conv)
              (Some (demo_sys 4 Stream [(FINS_RETVAL_SUCCESS, [0, 0])])) (Some ''ABCDEFGHIJKL''))
       = FINS_RETVAL_SUCCESS
   \<and> finslib_name_set (demo_env 3 bcd_conv)
              (Some (demo_sys 4 Stream [(FINS_RETVAL_SUCCESS, [0, 0])])) None =
       \<lparr>n_retval = FINS_RETVAL_NO_DATA_BLOCK,
        n_sys = Some (demo_sys 4 Stream [(FINS_RETVAL_SUCCESS, [0, 0])]), n_log = []\<rparr>"
proof -
  let ?env = "demo_env 3 bcd_conv"
  let ?s = "demo_sys 4 Stream [(FINS_RETVAL_SUCCESS, [0, 0])]"
  have c: "sockfd ?s \<noteq> INVALID_SOCKET ?env"
    by (simp add: demo_sys_def)
  obtain rep where nx: "name_exchange ?env ?s ''ABCDEFGHIJKL'' =
      (FINS_RETVAL_SUCCESS, demo_sys 4 Stream [], rep, 2)"
    using demo_name_exchange [of 3 bcd_conv 4 Stream FINS_RETVAL_SUCCESS "[0, 0]" "[]" "''ABCDEFGHIJKL''"]
    by auto
  have nonul: "CHR 0x00 \<notin> set ''ABCDEFGHIJKL''" by simp
  from name_is_truncated_to_8_bytes [OF c, of "''ABCDEFGHIJKL''" "demo_sys 4 Stream []" rep] nx nonul
  show ?thesis by auto
qed

section \<open>Unsigned BCD16 round trip\<close>

text \<open>
  Claim C9. Encoding is the inverse of decoding on the valid domain: for every 16-bit
  word \<open>w\<close> whose four nibbles are all decimal digits,
  \<open>encode_unsigned_bcd16 (decode_unsigned_bcd16 w) = w\<close>. Both functions are modelled
  from the specification.
\<close>

theorem bcd16_round_trip:
  "bcd_valid w \<Longrightarrow> encode_unsigned_bcd16 (decode_unsigned_bcd16 w) = w"
proof -
  assume v: "bcd_valid w"
  let ?a = "bcd_nibble w 0" and ?b = "bcd_nibble w 1" and ?c = "bcd_nibble w 2"
    and ?e = "bcd_nibble w 3"
  let ?v = "?a + 10 * ?b + 100 * ?c + 1000 * ?e"
  from v have d: "?a \<le> 9" "?b \<le> 9" "?c \<le> 9" "?e \<le> 9"
    by (simp_all add: bcd_valid_iff)
  have nv: "nat (decode_unsigned_bcd16 w) = ?v"
    by (simp only: decode_valid [OF v] nat_int)
  have e: "?v div 10 ^ 0 mod 10 = ?a" "?v div 10 ^ 1 mod 10 = ?b"
    "?v div 10 ^ 2 mod 10 = ?c" "?v div 10 ^ 3 mod 10 = ?e"
    using digits_of_nat [OF d] by simp_all
  have "sum_list (map (\<lambda>k. (nat (decode_unsigned_bcd16 w) div 10 ^ k mod 10) * 16 ^ k) [0, 1, 2, 3])
          = ?a * 16 ^ 0 + (?b * 16 ^ 1 + (?c * 16 ^ 2 + (?e * 16 ^ 3 + 0)))"
    by (simp only: nv list.map sum_list.Cons sum_list.Nil e)
  also have "\<dots> = ?a + 16 * ?b + 256 * ?c + 4096 * ?e"
    by simp
  finally have "encode_unsigned_bcd16 (decode_unsigned_bcd16 w) =
          word_of_nat (?a + 16 * ?b + 256 * ?c + 4096 * ?e)"
    by (simp only: encode_unsigned_bcd16_def upt4)
  also have "\<dots> = w"
    by (rule word16_nibbles [symmetric])
  finally show ?thesis .
qed

theorem bcd16_round_trip_witness:
  "bcd_valid 0x1234 \<and> decode_unsigned_bcd16 0x1234 = 1234
   \<and> encode_unsigned_bcd16 (decode_unsigned_bcd16 0x1234) = 0x1234"
proof -
  have v: "bcd_valid 0x1234"
    by (simp add: bcd_valid_def bcd_nibble_unat upt4)
  from bcd16_round_trip [OF v] v decode_1234 show ?thesis
    by simp
qed

section \<open>The length of a response must match\<close>

text \<open>
  Claim C10. The test of line 127 is an equality, not a lower bound. Whenever the
  exchange of a pass returns success and the length of the response body differs from
  \<^verbatim>\<open>2 + 2*chunk_length\<close>, \<^verbatim>\<open>process_data\<close> returns \<^verbatim>\<open>FINS_RETVAL_BODY_TOO_SHORT\<close>; in
  particular a response that is longer than expected is rejected with that code. In the
  same way \<^verbatim>\<open>finslib_name_set\<close> on a connected session returns
  \<^verbatim>\<open>FINS_RETVAL_BODY_TOO_SHORT\<close> when the exchange returns success with a response body of
  any length other than 2.
\<close>

theorem reply_length_must_match:
  "(pass_state env sys start data num_bcd16 ty k = Some (area_ptr, st)
      \<and> exchange env area_ptr st = (FINS_RETVAL_SUCCESS, sys', reply, replylen)
      \<and> replylen \<noteq> 2 + 2 * next_chunk_length env (ls_todo st)
    \<longrightarrow> (\<exists>r. process_data env sys start data num_bcd16 ty = Some r
            \<and> retval r = FINS_RETVAL_BODY_TOO_SHORT))
   \<and> (pass_state env sys start data num_bcd16 ty k = Some (area_ptr, st)
      \<and> exchange env area_ptr st = (FINS_RETVAL_SUCCESS, sys', reply, replylen)
      \<and> 2 + 2 * unat (next_chunk_length env (ls_todo st)) < unat replylen
    \<longrightarrow> (\<exists>r. process_data env sys start data num_bcd16 ty = Some r
            \<and> retval r = FINS_RETVAL_BODY_TOO_SHORT))
   \<and> (sockfd s \<noteq> INVALID_SOCKET env
      \<and> name_exchange env s nm = (FINS_RETVAL_SUCCESS, s', nreply, nreplylen)
      \<and> nreplylen \<noteq> 2
    \<longrightarrow> n_retval (finslib_name_set env (Some s) (Some nm)) = FINS_RETVAL_BODY_TOO_SHORT)"
proof (intro conjI impI)
  assume a: "pass_state env sys start data num_bcd16 ty k = Some (area_ptr, st)
      \<and> exchange env area_ptr st = (FINS_RETVAL_SUCCESS, sys', reply, replylen)
      \<and> replylen \<noteq> 2 + 2 * next_chunk_length env (ls_todo st)"
  then have ps: "pass_state env sys start data num_bcd16 ty k = Some (area_ptr, st)"
    and ex: "exchange env area_ptr st = (FINS_RETVAL_SUCCESS, sys', reply, replylen)"
    and ne: "replylen \<noteq> 2 + 2 * next_chunk_length env (ls_todo st)"
    by simp_all
  have "process_data env sys start data num_bcd16 ty = chunk_loop env ty area_ptr st"
    using ps by (rule process_data_pass)
  also have "\<dots> = Some (finish FINS_RETVAL_BODY_TOO_SHORT (logged env area_ptr st))"
    using ex ne by (rule chunk_loop_body_too_short)
  finally show "\<exists>r. process_data env sys start data num_bcd16 ty = Some r
            \<and> retval r = FINS_RETVAL_BODY_TOO_SHORT"
    by (simp add: finish_def)
next
  assume a: "pass_state env sys start data num_bcd16 ty k = Some (area_ptr, st)
      \<and> exchange env area_ptr st = (FINS_RETVAL_SUCCESS, sys', reply, replylen)
      \<and> 2 + 2 * unat (next_chunk_length env (ls_todo st)) < unat replylen"
  let ?cl = "next_chunk_length env (ls_todo st)"
  have "unat (2 + 2 * ?cl) \<le> 2 + 2 * unat ?cl"
    by (simp add: unat_word_ariths)
  with a have ne: "replylen \<noteq> 2 + 2 * ?cl"
    by auto
  from a have ps: "pass_state env sys start data num_bcd16 ty k = Some (area_ptr, st)"
    and ex: "exchange env area_ptr st = (FINS_RETVAL_SUCCESS, sys', reply, replylen)"
    by simp_all
  have "process_data env sys start data num_bcd16 ty = chunk_loop env ty area_ptr st"
    using ps by (rule process_data_pass)
  also have "\<dots> = Some (finish FINS_RETVAL_BODY_TOO_SHORT (logged env area_ptr st))"
    using ex ne by (rule chunk_loop_body_too_short)
  finally show "\<exists>r. process_data env sys start data num_bcd16 ty = Some r
            \<and> retval r = FINS_RETVAL_BODY_TOO_SHORT"
    by (simp add: finish_def)
next
  assume "sockfd s \<noteq> INVALID_SOCKET env
      \<and> name_exchange env s nm = (FINS_RETVAL_SUCCESS, s', nreply, nreplylen)
      \<and> nreplylen \<noteq> 2"
  then show "n_retval (finslib_name_set env (Some s) (Some nm)) = FINS_RETVAL_BODY_TOO_SHORT"
    by (simp add: name_set_eq)
qed

theorem reply_length_must_match_witness:
  "map_option retval
     (process_data (demo_env 3 bcd_conv)
        (Some (demo_sys 4 Stream
           [(FINS_RETVAL_SUCCESS, first_reply), (FINS_RETVAL_SUCCESS, short_reply)]))
        (Some ''D100'') (Some blank) 5 0) = Some FINS_RETVAL_BODY_TOO_SHORT
   \<and> map_option retval
     (process_data (demo_env 3 bcd_conv)
        (Some (demo_sys 4 Stream
           [(FINS_RETVAL_SUCCESS, first_reply), (FINS_RETVAL_SUCCESS, long_reply)]))
        (Some ''D100'') (Some blank) 5 0) = Some FINS_RETVAL_BODY_TOO_SHORT
   \<and> n_retval (finslib_name_set (demo_env 3 bcd_conv)
        (Some (demo_sys 4 Stream [(FINS_RETVAL_SUCCESS, [0, 0, 0])])) (Some ''PLC''))
       = FINS_RETVAL_BODY_TOO_SHORT"
proof -
  let ?env = "demo_env 3 bcd_conv"
  have chunk: "map_option retval
     (process_data ?env
        (Some (demo_sys 4 Stream [(FINS_RETVAL_SUCCESS, first_reply), (FINS_RETVAL_SUCCESS, bytes)]))
        (Some ''D100'') (Some blank) 5 0) = Some FINS_RETVAL_BODY_TOO_SHORT"
    if ne: "(of_nat (length bytes) :: size_t) \<noteq> 6" for bytes
  proof -
    let ?sys = "demo_sys 4 Stream [(FINS_RETVAL_SUCCESS, first_reply), (FINS_RETVAL_SUCCESS, bytes)]"
    obtain st1 e1 where
      ps: "pass_state ?env (Some ?sys) (Some ''D100'') (Some blank) 5 0 1 = Some (demo_area, st1)"
      and sys1: "ls_sys st1 = demo_sys 4 Stream [(FINS_RETVAL_SUCCESS, bytes)]"
      and todo1: "ls_todo st1 = 2"
      by (rule demo_first_chunk)
    have ex: "exchange ?env demo_area st1 =
       (FINS_RETVAL_SUCCESS, demo_sys 4 Stream [], \<lparr>header = [1, 1], body = reply_body bytes\<rparr>,
        of_nat (length bytes))"
      using sys1 by (rule demo_exchange)
    have "of_nat (length bytes) \<noteq> 2 + 2 * next_chunk_length ?env (ls_todo st1)"
      using ne by (simp add: todo1 next_chunk_length_def)
    with reply_length_must_match [of ?env "Some ?sys" "Some ''D100''" "Some blank" 5 0 1
        demo_area st1 _ _ "of_nat (length bytes)"] ps ex
    have "\<exists>r. process_data ?env (Some ?sys) (Some ''D100'') (Some blank) 5 0 = Some r
            \<and> retval r = FINS_RETVAL_BODY_TOO_SHORT"
      by blast
    then show ?thesis by auto
  qed
  have 1: "map_option retval
     (process_data ?env
        (Some (demo_sys 4 Stream [(FINS_RETVAL_SUCCESS, first_reply), (FINS_RETVAL_SUCCESS, short_reply)]))
        (Some ''D100'') (Some blank) 5 0) = Some FINS_RETVAL_BODY_TOO_SHORT"
    by (rule chunk) (simp add: short_reply_def)
  have 2: "map_option retval
     (process_data ?env
        (Some (demo_sys 4 Stream [(FINS_RETVAL_SUCCESS, first_reply), (FINS_RETVAL_SUCCESS, long_reply)]))
        (Some ''D100'') (Some blank) 5 0) = Some FINS_RETVAL_BODY_TOO_SHORT"
    by (rule chunk) (simp add: long_reply_def)
  obtain nreply where nx: "name_exchange ?env (demo_sys 4 Stream [(FINS_RETVAL_SUCCESS, [0, 0, 0])]) ''PLC'' =
     (FINS_RETVAL_SUCCESS, demo_sys 4 Stream [], nreply, of_nat (length [0, 0, 0 :: byte]))"
    using demo_name_exchange by blast
  have c: "sockfd (demo_sys 4 Stream [(FINS_RETVAL_SUCCESS, [0, 0, 0])]) \<noteq> INVALID_SOCKET ?env"
    by (simp add: demo_sys_def)
  have "(of_nat (length [0, 0, 0 :: byte]) :: size_t) \<noteq> 2" by simp
  with reply_length_must_match [where env = ?env
      and s = "demo_sys 4 Stream [(FINS_RETVAL_SUCCESS, [0, 0, 0])]" and nm = "''PLC''"
      and nreplylen = "of_nat (length [0, 0, 0 :: byte])"] nx c
  have 3: "n_retval (finslib_name_set ?env
        (Some (demo_sys 4 Stream [(FINS_RETVAL_SUCCESS, [0, 0, 0])])) (Some ''PLC''))
       = FINS_RETVAL_BODY_TOO_SHORT"
    by blast
  from 1 2 3 show ?thesis by simp
qed

end
